theory Spec2Isabelle
  imports Main "HOL-Library.Word" "HOL-Library.Monad_Syntax"
begin

unbundle bit_operations_syntax

section \<open>Conventions of the embedding\<close>

text \<open>
  The two engines of nfx-containers are embedded function by function:
  \<^item> \<open>size_t\<close> values (sizes, capacities, indices) are \<open>nat\<close>: a \<open>std::vector\<close> holds
    fewer than \<open>2^63\<close> elements, so no \<open>size_t\<close> computation of the code wraps;
  \<open>x << 1\<close> is \<open>2 * x\<close> and \<open>x & (c - 1)\<close> is \<open>x AND (c - 1)\<close> on \<open>nat\<close>.
  \<^item> \<open>hash_type\<close> of PerfectHashMap is \<open>'w word\<close> (\<open>uint32_t\<close> or \<open>uint64_t\<close>), because
    the seed search increments a \<open>hash_type\<close> and stores it as the signed \<open>seed_type\<close>.
  \<^item> \<open>KeyEqual\<close> is \<open>std::equal_to<>\<close>, i.e. HOL equality on the key type; the hasher is
    a parameter \<open>hasher\<close>, and \<open>hashing::seedMix\<close> (not part of this repository) is a
    parameter \<open>seedMix\<close>.
  \<^item> A loop that the code does not bound is a \<open>partial_function (option)\<close>: \<open>None\<close> means
    that the loop never exits.
  \<^item> A thrown exception is \<open>Inl\<close> of an \<open>error\<close>.
\<close>

datatype error =
    DuplicateKeys    \<comment> \<open>\<open>std::invalid_argument( "PerfectHashMap: duplicate keys detected" )\<close>\<close>
  | KeyNotFound      \<comment> \<open>\<open>std::out_of_range( "...::at: key not found" )\<close>\<close>
  | OutOfBounds      \<comment> \<open>a vector read past its end (undefined behaviour in the source)\<close>

text \<open>\<open>while ( c < n ) { c <<= 1; }\<close>, used for every power-of-two sizing.\<close>

partial_function (option) growPow2 :: "nat \<Rightarrow> nat \<Rightarrow> nat option" where
  "growPow2 c n = (if c < n then growPow2 (2 * c) n else Some c)"

declare growPow2.simps [code]

section \<open>PerfectHashMap (CHD)\<close>

record ('k, 'v, 's) PerfectHashMap =
  m_itemCount :: nat
  m_table :: "('k \<times> 'v) list"
  m_seeds :: "'s list"
  m_occupied :: "bool list"

text \<open>\<open>PerfectHashMap() = default\<close>: every member is empty.\<close>

definition PerfectHashMap_default :: "('k, 'v, 'w word) PerfectHashMap" where
  "PerfectHashMap_default = \<lparr>m_itemCount = 0, m_table = [], m_seeds = [], m_occupied = []\<rparr>"

text \<open>The duplicate check of the constructor: \<open>seen.insert( key ).second\<close> is false
  exactly when \<open>seen\<close> already holds an equal key.\<close>

fun hasDuplicateKeys :: "'k list \<Rightarrow> 'k list \<Rightarrow> bool" where
  "hasDuplicateKeys seen [] = False"
| "hasDuplicateKeys seen (k # ks) =
     (if k \<in> set seen then True else hasDuplicateKeys (k # seen) ks)"

text \<open>Bucketing: \<open>buckets[h & (tableSize - 1)].emplace_back( i, h )\<close> for every item.\<close>

definition fillBuckets ::
  "('k \<Rightarrow> 'w::len word) \<Rightarrow> nat \<Rightarrow> ('k \<times> 'v) list \<Rightarrow> (nat \<times> 'w word) list list" where
  "fillBuckets hasher tableSize items =
     foldl (\<lambda>buckets i.
              let h = hasher (fst (items ! i));
                  bucketIndex = unat h AND (tableSize - 1)
              in buckets[bucketIndex := buckets ! bucketIndex @ [(i, h)]])
           (replicate tableSize []) [0..<length items]"

text \<open>\<open>indexedBuckets\<close>: the non-empty buckets with their index, then sorted by
  descending size. \<open>std::sort\<close> leaves the order of equal-sized buckets open; the model
  takes the stable order, and the placement lemmas below hold for any order.\<close>

definition indexedBuckets :: "nat \<Rightarrow> 'b list list \<Rightarrow> (nat \<times> 'b list) list" where
  "indexedBuckets tableSize buckets =
     map (\<lambda>i. (i, buckets ! i)) (filter (\<lambda>i. buckets ! i \<noteq> []) [0..<tableSize])"

definition sortBySize :: "(nat \<times> 'b list) list \<Rightarrow> (nat \<times> 'b list) list" where
  "sortBySize ibs = sort_key (\<lambda>ib. - int (length (snd ib))) ibs"

text \<open>One seed attempt (the inner \<open>for\<close> over the bucket's items): \<open>None\<close> is a collision,
  \<open>Some positions\<close> the slots found.\<close>

fun tryPositions ::
  "('w::len word \<Rightarrow> 'w word \<Rightarrow> nat \<Rightarrow> 'w word) \<Rightarrow> nat \<Rightarrow> bool list \<Rightarrow> (nat \<times> 'w word) list list
     \<Rightarrow> 'w word \<Rightarrow> (nat \<times> 'w word) list \<Rightarrow> nat list \<Rightarrow> nat list option" where
  "tryPositions seedMix tableSize occ buckets seed [] positions = Some positions"
| "tryPositions seedMix tableSize occ buckets seed ((itemIndex, hashValue) # rest) positions =
     (let finalHash = seedMix seed hashValue tableSize;
          pos = unat finalHash AND (tableSize - 1)
      in if occ ! pos then None
         else if buckets ! pos \<noteq> [] \<and> length (buckets ! pos) = 1 then None
         else if pos \<in> set positions then None
         else tryPositions seedMix tableSize occ buckets seed rest (positions @ [pos]))"

text \<open>\<open>for ( hash_type seed = 1; !seedFound; ++seed )\<close>: no bound, \<open>++seed\<close> wraps.\<close>

partial_function (option) findSeed ::
  "('w::len word \<Rightarrow> 'w word \<Rightarrow> nat \<Rightarrow> 'w word) \<Rightarrow> nat \<Rightarrow> bool list \<Rightarrow> (nat \<times> 'w word) list list
     \<Rightarrow> (nat \<times> 'w word) list \<Rightarrow> 'w word \<Rightarrow> ('w word \<times> nat list) option" where
  "findSeed seedMix tableSize occ buckets bucket seed =
     (case tryPositions seedMix tableSize occ buckets seed bucket [] of
        Some positions \<Rightarrow> Some (seed, positions)
      | None \<Rightarrow> findSeed seedMix tableSize occ buckets bucket (seed + 1))"

declare findSeed.simps [code]

text \<open>Placing all items of a bucket at the positions found.\<close>

definition placeItems ::
  "('k \<times> 'v) list \<Rightarrow> (nat \<times> 'w word) list \<Rightarrow> nat list
     \<Rightarrow> ('k, 'v, 'w word) PerfectHashMap \<Rightarrow> ('k, 'v, 'w word) PerfectHashMap" where
  "placeItems items bucket positions m =
     foldl (\<lambda>m i. let itemIndex = fst (bucket ! i); pos = positions ! i
                   in m\<lparr>m_table := (m_table m)[pos := items ! itemIndex],
                        m_occupied := (m_occupied m)[pos := True]\<rparr>)
           m [0..<length bucket]"

text \<open>The loop over the sorted buckets.\<close>

fun processBuckets ::
  "('w::len word \<Rightarrow> 'w word \<Rightarrow> nat \<Rightarrow> 'w word) \<Rightarrow> nat \<Rightarrow> (nat \<times> 'w word) list list \<Rightarrow> ('k \<times> 'v) list
     \<Rightarrow> (nat \<times> (nat \<times> 'w word) list) list
     \<Rightarrow> ('k, 'v, 'w word) PerfectHashMap \<Rightarrow> ('k, 'v, 'w word) PerfectHashMap option" where
  "processBuckets seedMix tableSize buckets items [] m = Some m"
| "processBuckets seedMix tableSize buckets items ((bucketIndex, bucket) # rest) m =
     (if length bucket = 1 then
        let itemIndex = fst (bucket ! 0)
        in processBuckets seedMix tableSize buckets items rest
             (m\<lparr>m_table := (m_table m)[bucketIndex := items ! itemIndex],
                m_occupied := (m_occupied m)[bucketIndex := True],
                m_seeds := (m_seeds m)[bucketIndex := - word_of_nat (bucketIndex + 1)]\<rparr>)
      else
        let originalBucketIndex = unat (snd (bucket ! 0)) AND (tableSize - 1)
        in case findSeed seedMix tableSize (m_occupied m) buckets bucket 1 of
             None \<Rightarrow> None
           | Some (seed, positions) \<Rightarrow>
               let m' = placeItems items bucket positions m
               in processBuckets seedMix tableSize buckets items rest
                    (m'\<lparr>m_seeds := (m_seeds m')[originalBucketIndex := seed]\<rparr>))"

text \<open>The constructor \<open>PerfectHashMap( std::vector<std::pair<TKey, TValue>>&& items )\<close>.
  \<open>dflt\<close> is the value-initialised pair that \<open>m_table.resize\<close> fills the table with.\<close>

definition PerfectHashMap_ctor ::
  "('k \<Rightarrow> 'w::len word) \<Rightarrow> ('w word \<Rightarrow> 'w word \<Rightarrow> nat \<Rightarrow> 'w word) \<Rightarrow> ('k \<times> 'v) \<Rightarrow> ('k \<times> 'v) list
     \<Rightarrow> (error + ('k, 'v, 'w word) PerfectHashMap) option" where
  "PerfectHashMap_ctor hasher seedMix dflt items =
     (let itemCount = length items in
      if itemCount = 0 then
        Some (Inr \<lparr>m_itemCount = itemCount, m_table = items, m_seeds = [], m_occupied = []\<rparr>)
      else if hasDuplicateKeys [] (map fst items) then Some (Inl DuplicateKeys)
      else
        case growPow2 1 itemCount of
          None \<Rightarrow> None
        | Some c \<Rightarrow>
            let tableSize = 2 * c;
                buckets = fillBuckets hasher tableSize items;
                sorted = sortBySize (indexedBuckets tableSize buckets)
            in map_option Inr
                 (processBuckets seedMix tableSize buckets items sorted
                    \<lparr>m_itemCount = itemCount,
                     m_table = replicate tableSize dflt,
                     m_seeds = replicate tableSize 0,
                     m_occupied = replicate tableSize False\<rparr>))"

text \<open>Lookup. \<open>seed < 0\<close> reads the stored word as signed. Reads of \<open>m_occupied\<close> and
  \<open>m_table\<close> at \<open>position\<close> are not masked in the source, so the model checks them.\<close>

definition lookupPosition ::
  "('k \<Rightarrow> 'w::len word) \<Rightarrow> ('w word \<Rightarrow> 'w word \<Rightarrow> nat \<Rightarrow> 'w word)
     \<Rightarrow> ('k, 'v, 'w word) PerfectHashMap \<Rightarrow> 'k \<Rightarrow> error + nat" where
  "lookupPosition hasher seedMix m k =
     (let tableSize = length (m_table m);
          hashValue = hasher k;
          bucketIndex = unat hashValue AND (tableSize - 1)
      in if length (m_seeds m) \<le> bucketIndex then Inl OutOfBounds
         else
           let seed = m_seeds m ! bucketIndex;
               position = (if sint seed < 0 then nat (- sint seed - 1)
                           else unat (seedMix seed hashValue tableSize))
           in if length (m_occupied m) \<le> position then Inl OutOfBounds
              else if m_occupied m ! position \<and> length (m_table m) \<le> position then Inl OutOfBounds
              else Inr position)"

definition PerfectHashMap_find ::
  "('k \<Rightarrow> 'w::len word) \<Rightarrow> ('w word \<Rightarrow> 'w word \<Rightarrow> nat \<Rightarrow> 'w word)
     \<Rightarrow> ('k, 'v, 'w word) PerfectHashMap \<Rightarrow> 'k \<Rightarrow> error + 'v option" where
  "PerfectHashMap_find hasher seedMix m k =
     (if m_table m = [] then Inr None
      else case lookupPosition hasher seedMix m k of
             Inl e \<Rightarrow> Inl e
           | Inr position \<Rightarrow>
               if m_occupied m ! position \<and> fst (m_table m ! position) = k
               then Inr (Some (snd (m_table m ! position)))
               else Inr None)"

definition PerfectHashMap_contains ::
  "('k \<Rightarrow> 'w::len word) \<Rightarrow> ('w word \<Rightarrow> 'w word \<Rightarrow> nat \<Rightarrow> 'w word)
     \<Rightarrow> ('k, 'v, 'w word) PerfectHashMap \<Rightarrow> 'k \<Rightarrow> error + bool" where
  "PerfectHashMap_contains hasher seedMix m k =
     (if m_table m = [] then Inr False
      else case lookupPosition hasher seedMix m k of
             Inl e \<Rightarrow> Inl e
           | Inr position \<Rightarrow> Inr (m_occupied m ! position \<and> fst (m_table m ! position) = k))"

definition PerfectHashMap_at ::
  "('k \<Rightarrow> 'w::len word) \<Rightarrow> ('w word \<Rightarrow> 'w word \<Rightarrow> nat \<Rightarrow> 'w word)
     \<Rightarrow> ('k, 'v, 'w word) PerfectHashMap \<Rightarrow> 'k \<Rightarrow> error + 'v" where
  "PerfectHashMap_at hasher seedMix m k =
     (case PerfectHashMap_find hasher seedMix m k of
        Inl e \<Rightarrow> Inl e
      | Inr (Some v) \<Rightarrow> Inr v
      | Inr None \<Rightarrow> Inl KeyNotFound)"

definition PerfectHashMap_size :: "('k, 'v, 's) PerfectHashMap \<Rightarrow> nat" where
  "PerfectHashMap_size m = length (m_table m)"

definition PerfectHashMap_count :: "('k, 'v, 's) PerfectHashMap \<Rightarrow> nat" where
  "PerfectHashMap_count m = m_itemCount m"

definition PerfectHashMap_isEmpty :: "('k, 'v, 's) PerfectHashMap \<Rightarrow> bool" where
  "PerfectHashMap_isEmpty m = (m_itemCount m = 0)"

section \<open>FastHashSet (Robin Hood hashing)\<close>

text \<open>
  \<open>struct Bucket { TKey key{}; HashType hash{}; uint32_t distance{}; bool occupied{}; }\<close>.
  The cached hash is only compared and masked, so it is a \<open>nat\<close> (its unsigned value);
  \<open>distance\<close> is a \<open>nat\<close>: it stays below the capacity in every table built by
  \<open>insert\<close>, far below \<open>2^32\<close>.
\<close>

record 'k Bucket =
  key :: 'k
  hash :: nat
  distance :: nat
  occupied :: bool

record 'k FastHashSet =
  m_buckets :: "'k Bucket list"
  m_size :: nat
  m_capacity :: nat
  m_mask :: nat

text \<open>\<open>Bucket{}\<close>; \<open>dk\<close> is the value-initialised key \<open>TKey{}\<close>.\<close>

definition emptyBucket :: "'k \<Rightarrow> 'k Bucket" where
  "emptyBucket dk = \<lparr>key = dk, hash = 0, distance = 0, occupied = False\<rparr>"

definition INITIAL_CAPACITY :: nat where
  "INITIAL_CAPACITY = 32"

definition MAX_LOAD_FACTOR_PERCENT :: nat where
  "MAX_LOAD_FACTOR_PERCENT = 75"

text \<open>A table of \<open>c\<close> value-initialised buckets (\<open>m_buckets.resize( c )\<close>, \<open>m_size = 0\<close>).\<close>

definition freshTable :: "'k \<Rightarrow> nat \<Rightarrow> 'k FastHashSet" where
  "freshTable dk c =
     \<lparr>m_buckets = replicate c (emptyBucket dk), m_size = 0, m_capacity = c, m_mask = c - 1\<rparr>"

text \<open>\<open>FastHashSet()\<close> and \<open>FastHashSet( size_t initialCapacity )\<close>.\<close>

definition FastHashSet_default :: "'k \<Rightarrow> 'k FastHashSet" where
  "FastHashSet_default dk = freshTable dk INITIAL_CAPACITY"

definition FastHashSet_capacity :: "'k \<Rightarrow> nat \<Rightarrow> 'k FastHashSet option" where
  "FastHashSet_capacity dk initialCapacity =
     map_option (freshTable dk) (growPow2 1 initialCapacity)"

subsection \<open>find, contains\<close>

text \<open>The \<open>while ( true )\<close> of \<open>find\<close>. The result is the index of the bucket whose key
  the returned pointer addresses, or \<open>None\<close> for \<open>nullptr\<close>.\<close>

partial_function (option) findLoop ::
  "'k Bucket list \<Rightarrow> nat \<Rightarrow> nat \<Rightarrow> 'k \<Rightarrow> nat \<Rightarrow> nat \<Rightarrow> nat option option" where
  "findLoop bs msk h k pos dist =
     (let bucket = bs ! pos in
      if \<not> occupied bucket \<or> dist > distance bucket then Some None
      else if hash bucket = h \<and> key bucket = k then Some (Some pos)
      else findLoop bs msk h k ((pos + 1) AND msk) (dist + 1))"

declare findLoop.simps [code]

definition FastHashSet_find ::
  "('k \<Rightarrow> nat) \<Rightarrow> 'k FastHashSet \<Rightarrow> 'k \<Rightarrow> nat option option" where
  "FastHashSet_find hasher s k =
     findLoop (m_buckets s) (m_mask s) (hasher k) k (hasher k AND m_mask s) 0"

definition FastHashSet_contains :: "('k \<Rightarrow> nat) \<Rightarrow> 'k FastHashSet \<Rightarrow> 'k \<Rightarrow> bool option" where
  "FastHashSet_contains hasher s k = map_option (\<lambda>r. r \<noteq> None) (FastHashSet_find hasher s k)"

definition FastHashSet_size :: "'k FastHashSet \<Rightarrow> nat" where
  "FastHashSet_size s = m_size s"

definition FastHashSet_capacity_of :: "'k FastHashSet \<Rightarrow> nat" where
  "FastHashSet_capacity_of s = m_capacity s"

subsection \<open>insertInternal, resize, reserve\<close>

definition shouldResize :: "'k FastHashSet \<Rightarrow> bool" where
  "shouldResize s = (m_size s * 100 \<ge> m_capacity s * MAX_LOAD_FACTOR_PERCENT)"

text \<open>First pass of \<open>insertInternal\<close>: look for the key or for the insertion point.\<close>

datatype probeResult = KeyExists | InsertAt nat nat

partial_function (option) probeLoop ::
  "'k Bucket list \<Rightarrow> nat \<Rightarrow> nat \<Rightarrow> 'k \<Rightarrow> nat \<Rightarrow> nat \<Rightarrow> probeResult option" where
  "probeLoop bs msk h k pos dist =
     (if occupied (bs ! pos) then
        if hash (bs ! pos) = h \<and> key (bs ! pos) = k then Some KeyExists
        else if dist > distance (bs ! pos) then Some (InsertAt pos dist)
        else probeLoop bs msk h k ((pos + 1) AND msk) (dist + 1)
      else Some (InsertAt pos dist))"

declare probeLoop.simps [code]

text \<open>The Robin Hood displacement loop, with the final store into the free bucket.\<close>

partial_function (option) displaceLoop ::
  "'k Bucket list \<Rightarrow> nat \<Rightarrow> 'k Bucket \<Rightarrow> nat \<Rightarrow> 'k Bucket list option" where
  "displaceLoop bs msk newBucket pos =
     (if occupied (bs ! pos) then
        if distance newBucket > distance (bs ! pos) then
          displaceLoop (bs[pos := newBucket]) msk
            ((bs ! pos)\<lparr>distance := distance (bs ! pos) + 1\<rparr>) ((pos + 1) AND msk)
        else
          displaceLoop bs msk (newBucket\<lparr>distance := distance newBucket + 1\<rparr>)
            ((pos + 1) AND msk)
      else Some (bs[pos := newBucket]))"

declare displaceLoop.simps [code]

text \<open>\<open>insertInternal\<close> from \<open>const HashType hash( m_hasher( key ) )\<close> on, that is after the
  resize check.\<close>

definition insertAfterResize ::
  "('k \<Rightarrow> nat) \<Rightarrow> 'k FastHashSet \<Rightarrow> 'k \<Rightarrow> (bool \<times> 'k FastHashSet) option" where
  "insertAfterResize hasher s k =
     (let h = hasher k;
          pos = h AND m_mask s
      in if \<not> occupied (m_buckets s ! pos) then
           Some (True, s\<lparr>m_buckets := (m_buckets s)[pos := \<lparr>key = k, hash = h, distance = 0, occupied = True\<rparr>],
                         m_size := m_size s + 1\<rparr>)
         else
           case probeLoop (m_buckets s) (m_mask s) h k pos 0 of
             None \<Rightarrow> None
           | Some KeyExists \<Rightarrow> Some (False, s)
           | Some (InsertAt pos' dist) \<Rightarrow>
               (case displaceLoop (m_buckets s) (m_mask s)
                       \<lparr>key = k, hash = h, distance = dist, occupied = True\<rparr> pos' of
                  None \<Rightarrow> None
                | Some bs' \<Rightarrow> Some (True, s\<lparr>m_buckets := bs', m_size := m_size s + 1\<rparr>)))"

text \<open>The loop \<open>for ( i < oldCapacity ) if ( oldBuckets[i].occupied ) insertInternal( key )\<close>
  of \<open>resize\<close> and \<open>reserve\<close>, over the \<open>oldCapacity\<close> buckets of the old vector. It takes
  the insert function as an argument, because \<open>insertInternal\<close> and \<open>resize\<close> call each
  other.\<close>

fun reinsertAll ::
  "('k FastHashSet \<Rightarrow> 'k \<Rightarrow> (bool \<times> 'k FastHashSet) option) \<Rightarrow> 'k Bucket list
     \<Rightarrow> 'k FastHashSet \<Rightarrow> 'k FastHashSet option" where
  "reinsertAll ins [] s = Some s"
| "reinsertAll ins (b # oldBuckets) s =
     (if occupied b then
        Option.bind (ins s (key b)) (\<lambda>r. reinsertAll ins oldBuckets (snd r))
      else reinsertAll ins oldBuckets s)"

definition resizeWith ::
  "('k FastHashSet \<Rightarrow> 'k \<Rightarrow> (bool \<times> 'k FastHashSet) option) \<Rightarrow> 'k
     \<Rightarrow> 'k FastHashSet \<Rightarrow> 'k FastHashSet option" where
  "resizeWith ins dk s = reinsertAll ins (m_buckets s) (freshTable dk (2 * m_capacity s))"

lemma reinsertAll_mono [partial_function_mono]:
  assumes "\<And>s k. mono_option (\<lambda>f. ins f s k)"
  shows "mono_option (\<lambda>f. reinsertAll (ins f) bs s)"
proof (induction bs arbitrary: s)
  case Nil
  show ?case by (simp add: option.const_mono)
next
  case (Cons b bs)
  show ?case
    apply (simp only: reinsertAll.simps)
    apply (rule partial_function_mono assms Cons)+
    done
qed

lemma resizeWith_mono [partial_function_mono]:
  assumes "\<And>s k. mono_option (\<lambda>f. ins f s k)"
  shows "mono_option (\<lambda>f. resizeWith (ins f) dk s)"
  unfolding resizeWith_def by (rule reinsertAll_mono) (rule assms)

partial_function (option) insertInternal ::
  "('k \<Rightarrow> nat) \<Rightarrow> 'k \<Rightarrow> 'k FastHashSet \<Rightarrow> 'k \<Rightarrow> (bool \<times> 'k FastHashSet) option" where
  "insertInternal hasher dk s k =
     Option.bind (if shouldResize s then resizeWith (insertInternal hasher dk) dk s else Some s)
       (\<lambda>s'. insertAfterResize hasher s' k)"

declare insertInternal.simps [code]

definition resize :: "('k \<Rightarrow> nat) \<Rightarrow> 'k \<Rightarrow> 'k FastHashSet \<Rightarrow> 'k FastHashSet option" where
  "resize hasher dk s = resizeWith (insertInternal hasher dk) dk s"

text \<open>\<open>insert\<close> and \<open>emplace\<close> both forward to \<open>insertInternal\<close>.\<close>

definition FastHashSet_insert ::
  "('k \<Rightarrow> nat) \<Rightarrow> 'k \<Rightarrow> 'k FastHashSet \<Rightarrow> 'k \<Rightarrow> (bool \<times> 'k FastHashSet) option" where
  "FastHashSet_insert hasher dk s k = insertInternal hasher dk s k"

definition FastHashSet_emplace ::
  "('k \<Rightarrow> nat) \<Rightarrow> 'k \<Rightarrow> 'k FastHashSet \<Rightarrow> 'k \<Rightarrow> (bool \<times> 'k FastHashSet) option" where
  "FastHashSet_emplace hasher dk s k = insertInternal hasher dk s k"

definition FastHashSet_reserve ::
  "('k \<Rightarrow> nat) \<Rightarrow> 'k \<Rightarrow> 'k FastHashSet \<Rightarrow> nat \<Rightarrow> 'k FastHashSet option" where
  "FastHashSet_reserve hasher dk s minCapacity =
     (if minCapacity > m_capacity s then
        case growPow2 1 minCapacity of
          None \<Rightarrow> None
        | Some newCapacity \<Rightarrow>
            if newCapacity > m_capacity s then
              reinsertAll (insertInternal hasher dk) (m_buckets s) (freshTable dk newCapacity)
            else Some s
      else Some s)"

text \<open>A sequence of \<open>insert\<close> calls, results dropped.\<close>

fun insertAll ::
  "('k \<Rightarrow> nat) \<Rightarrow> 'k \<Rightarrow> 'k FastHashSet \<Rightarrow> 'k list \<Rightarrow> 'k FastHashSet option" where
  "insertAll hasher dk s [] = Some s"
| "insertAll hasher dk s (k # ks) =
     Option.bind (FastHashSet_insert hasher dk s k) (\<lambda>r. insertAll hasher dk (snd r) ks)"

text \<open>\<open>FastHashSet( std::initializer_list<TKey> init )\<close>, and \<open>FastHashSet( first, last )\<close>
  where \<open>randomAccess\<close> says whether the iterators are random-access.\<close>

definition FastHashSet_init :: "('k \<Rightarrow> nat) \<Rightarrow> 'k \<Rightarrow> 'k list \<Rightarrow> 'k FastHashSet option" where
  "FastHashSet_init hasher dk init =
     Option.bind (FastHashSet_reserve hasher dk (FastHashSet_default dk) (length init))
       (\<lambda>s. insertAll hasher dk s init)"

definition FastHashSet_range ::
  "('k \<Rightarrow> nat) \<Rightarrow> 'k \<Rightarrow> bool \<Rightarrow> 'k list \<Rightarrow> 'k FastHashSet option" where
  "FastHashSet_range hasher dk randomAccess keys =
     Option.bind (if randomAccess
                  then FastHashSet_reserve hasher dk (FastHashSet_default dk) (length keys)
                  else Some (FastHashSet_default dk))
       (\<lambda>s. insertAll hasher dk s keys)"

subsection \<open>tryEmplace\<close>

datatype slot = EmptySlot nat | MatchSlot nat

text \<open>The \<open>for ( ;; )\<close> of \<open>tryEmplace\<close> up to its two exits.\<close>

partial_function (option) tryEmplaceLoop ::
  "'k Bucket list \<Rightarrow> nat \<Rightarrow> nat \<Rightarrow> 'k \<Rightarrow> nat \<Rightarrow> slot option" where
  "tryEmplaceLoop bs msk h k idx =
     (if \<not> occupied (bs ! idx) then Some (EmptySlot idx)
      else if hash (bs ! idx) = h \<and> key (bs ! idx) = k then Some (MatchSlot idx)
      else tryEmplaceLoop bs msk h k ((idx + 1) AND msk))"

declare tryEmplaceLoop.simps [code]

text \<open>\<open>while ( m_buckets[idx].occupied ) idx = ( idx + 1 ) & m_mask;\<close>\<close>

partial_function (option) skipOccupied :: "'k Bucket list \<Rightarrow> nat \<Rightarrow> nat \<Rightarrow> nat option" where
  "skipOccupied bs msk idx =
     (if occupied (bs ! idx) then skipOccupied bs msk ((idx + 1) AND msk) else Some idx)"

declare skipOccupied.simps [code]

text \<open>The result is the bucket index of the returned iterator, the \<open>bool\<close>, and the table.\<close>

definition FastHashSet_tryEmplace ::
  "('k \<Rightarrow> nat) \<Rightarrow> 'k \<Rightarrow> 'k FastHashSet \<Rightarrow> 'k \<Rightarrow> (nat \<times> bool \<times> 'k FastHashSet) option" where
  "FastHashSet_tryEmplace hasher dk s k =
     (let h = hasher k in
      case tryEmplaceLoop (m_buckets s) (m_mask s) h k (h AND m_mask s) of
        None \<Rightarrow> None
      | Some (MatchSlot idx) \<Rightarrow> Some (idx, False, s)
      | Some (EmptySlot idx) \<Rightarrow>
          Option.bind
            (if shouldResize s then
               Option.bind (resize hasher dk s)
                 (\<lambda>s'. map_option (\<lambda>idx'. (s', idx'))
                          (skipOccupied (m_buckets s') (m_mask s') (h AND m_mask s')))
             else Some (s, idx))
            (\<lambda>(s', idx').
               Some (idx', True,
                     s'\<lparr>m_buckets := (m_buckets s')[idx' :=
                           (m_buckets s' ! idx')\<lparr>key := k, hash := h, distance := 0, occupied := True\<rparr>],
                        m_size := m_size s' + 1\<rparr>)))"

subsection \<open>erase, clear\<close>

text \<open>The search loop of \<open>erase( key )\<close>: the position of the match, or \<open>None\<close>.\<close>

partial_function (option) eraseLoop ::
  "'k Bucket list \<Rightarrow> nat \<Rightarrow> nat \<Rightarrow> 'k \<Rightarrow> nat \<Rightarrow> nat \<Rightarrow> nat option option" where
  "eraseLoop bs msk h k pos dist =
     (if dist \<le> distance (bs ! pos) \<and> occupied (bs ! pos) then
        if hash (bs ! pos) = h \<and> key (bs ! pos) = k then Some (Some pos)
        else eraseLoop bs msk h k ((pos + 1) AND msk) (dist + 1)
      else Some None)"

declare eraseLoop.simps [code]

text \<open>Backward-shift deletion.\<close>

partial_function (option) eraseShiftLoop ::
  "'k Bucket list \<Rightarrow> nat \<Rightarrow> 'k \<Rightarrow> nat \<Rightarrow> nat \<Rightarrow> 'k Bucket list option" where
  "eraseShiftLoop bs msk dk pos nextPos =
     (if occupied (bs ! nextPos) \<and> distance (bs ! nextPos) > 0 then
        eraseShiftLoop (bs[pos := (bs ! nextPos)\<lparr>distance := distance (bs ! nextPos) - 1\<rparr>])
          msk dk nextPos ((nextPos + 1) AND msk)
      else Some (bs[pos := emptyBucket dk]))"

declare eraseShiftLoop.simps [code]

definition eraseAtPosition :: "'k \<Rightarrow> 'k FastHashSet \<Rightarrow> nat \<Rightarrow> 'k FastHashSet option" where
  "eraseAtPosition dk s pos =
     map_option (\<lambda>bs. s\<lparr>m_buckets := bs\<rparr>)
       (eraseShiftLoop (m_buckets s) (m_mask s) dk pos ((pos + 1) AND m_mask s))"

definition FastHashSet_erase ::
  "('k \<Rightarrow> nat) \<Rightarrow> 'k \<Rightarrow> 'k FastHashSet \<Rightarrow> 'k \<Rightarrow> (bool \<times> 'k FastHashSet) option" where
  "FastHashSet_erase hasher dk s k =
     (case eraseLoop (m_buckets s) (m_mask s) (hasher k) k (hasher k AND m_mask s) 0 of
        None \<Rightarrow> None
      | Some None \<Rightarrow> Some (False, s)
      | Some (Some pos) \<Rightarrow>
          map_option (\<lambda>s'. (True, s'\<lparr>m_size := m_size s' - 1\<rparr>)) (eraseAtPosition dk s pos))"

text \<open>\<open>erase( ConstIterator pos )\<close>, the iterator given as a bucket index (\<open>m_capacity\<close> and
  beyond is \<open>end()\<close>).\<close>

definition FastHashSet_erase_at :: "'k \<Rightarrow> 'k FastHashSet \<Rightarrow> nat \<Rightarrow> 'k FastHashSet option" where
  "FastHashSet_erase_at dk s bucketPos =
     (if bucketPos \<ge> m_capacity s \<or> \<not> occupied (m_buckets s ! bucketPos) then Some s
      else map_option (\<lambda>s'. s'\<lparr>m_size := m_size s' - 1\<rparr>) (eraseAtPosition dk s bucketPos))"

definition FastHashSet_clear :: "'k FastHashSet \<Rightarrow> 'k FastHashSet" where
  "FastHashSet_clear s =
     s\<lparr>m_buckets := map (\<lambda>b. b\<lparr>occupied := False, distance := 0\<rparr>) (m_buckets s), m_size := 0\<rparr>"

section \<open>Invariants and reachable states of FastHashSet\<close>

text \<open>The number of occupied buckets, and the shape every table keeps: a power-of-two
  capacity, that many buckets, the matching mask, and \<open>m_size\<close> counting the occupied
  buckets.\<close>

definition occupiedCount :: "'k Bucket list \<Rightarrow> nat" where
  "occupiedCount bs = length (filter occupied bs)"

definition wf_table :: "'k FastHashSet \<Rightarrow> bool" where
  "wf_table s \<longleftrightarrow>
     (\<exists>e. m_capacity s = 2 ^ e) \<and> length (m_buckets s) = m_capacity s \<and>
     m_mask s = m_capacity s - 1 \<and> m_size s = occupiedCount (m_buckets s)"

text \<open>The public mutators as data, to speak about every state that calls of the
  interface can reach. \<open>EraseAt\<close> is \<open>erase( ConstIterator )\<close>.\<close>

datatype 'k operation =
    Insert 'k | Emplace 'k | TryEmplace 'k | Erase 'k | EraseAt nat | Clear | Reserve nat

fun applyOp :: "('k \<Rightarrow> nat) \<Rightarrow> 'k \<Rightarrow> 'k operation \<Rightarrow> 'k FastHashSet \<Rightarrow> 'k FastHashSet option" where
  "applyOp hasher dk (Insert k) s = map_option snd (FastHashSet_insert hasher dk s k)"
| "applyOp hasher dk (Emplace k) s = map_option snd (FastHashSet_emplace hasher dk s k)"
| "applyOp hasher dk (TryEmplace k) s = map_option (\<lambda>r. snd (snd r)) (FastHashSet_tryEmplace hasher dk s k)"
| "applyOp hasher dk (Erase k) s = map_option snd (FastHashSet_erase hasher dk s k)"
| "applyOp hasher dk (EraseAt p) s = FastHashSet_erase_at dk s p"
| "applyOp hasher dk Clear s = Some (FastHashSet_clear s)"
| "applyOp hasher dk (Reserve n) s = FastHashSet_reserve hasher dk s n"

fun applyOps :: "('k \<Rightarrow> nat) \<Rightarrow> 'k \<Rightarrow> 'k operation list \<Rightarrow> 'k FastHashSet \<Rightarrow> 'k FastHashSet option" where
  "applyOps hasher dk [] s = Some s"
| "applyOps hasher dk (op # ops) s = Option.bind (applyOp hasher dk op s) (applyOps hasher dk ops)"

text \<open>The states reachable from \<open>FastHashSet()\<close> or \<open>FastHashSet( initialCapacity )\<close> by
  calls of the mutators that return.\<close>

inductive reachable :: "('k \<Rightarrow> nat) \<Rightarrow> 'k \<Rightarrow> 'k FastHashSet \<Rightarrow> bool" for hasher dk where
  reachable_default: "reachable hasher dk (FastHashSet_default dk)"
| reachable_capacity: "FastHashSet_capacity dk c = Some s \<Longrightarrow> reachable hasher dk s"
| reachable_step: "reachable hasher dk s \<Longrightarrow> applyOp hasher dk op s = Some s' \<Longrightarrow> reachable hasher dk s'"

text \<open>The Robin Hood invariant. \<open>properAt\<close>: the cached hash is the key's hash and the
  recorded distance is the number of probe steps from the ideal slot \<open>hash mod capacity\<close>
  to the bucket's position. \<open>chainOk\<close>: along the probe order a bucket that is not at its
  ideal slot follows an occupied bucket whose distance is at most one less.\<close>

definition properAt :: "('k \<Rightarrow> nat) \<Rightarrow> 'k Bucket list \<Rightarrow> nat \<Rightarrow> bool" where
  "properAt hasher bs p \<longleftrightarrow>
     (occupied (bs ! p) \<longrightarrow>
        hash (bs ! p) = hasher (key (bs ! p)) \<and> distance (bs ! p) < length bs \<and>
        (hash (bs ! p) + distance (bs ! p)) mod length bs = p)"

definition chainOk :: "'k Bucket list \<Rightarrow> bool" where
  "chainOk bs \<longleftrightarrow>
     (\<forall>p<length bs.
        occupied (bs ! (Suc p mod length bs)) \<and> 0 < distance (bs ! (Suc p mod length bs)) \<longrightarrow>
        occupied (bs ! p) \<and> distance (bs ! (Suc p mod length bs)) \<le> distance (bs ! p) + 1)"

definition robinHood :: "('k \<Rightarrow> nat) \<Rightarrow> 'k Bucket list \<Rightarrow> bool" where
  "robinHood hasher bs \<longleftrightarrow> (\<forall>p<length bs. properAt hasher bs p) \<and> chainOk bs"

definition storedKeys :: "'k Bucket list \<Rightarrow> 'k set" where
  "storedKeys bs = key ` {b \<in> set bs. occupied b}"

definition rh_inv :: "('k \<Rightarrow> nat) \<Rightarrow> 'k FastHashSet \<Rightarrow> bool" where
  "rh_inv hasher s \<longleftrightarrow> wf_table s \<and> robinHood hasher (m_buckets s)"

text \<open>What holds of the bucket carried by the displacement loop when it arrives at
  \<open>pos\<close>.\<close>

definition carryOk :: "('k \<Rightarrow> nat) \<Rightarrow> 'k Bucket list \<Rightarrow> 'k Bucket \<Rightarrow> nat \<Rightarrow> bool" where
  "carryOk hasher bs nb pos \<longleftrightarrow>
     occupied nb \<and> hash nb = hasher (key nb) \<and>
     (hash nb + distance nb) mod length bs = pos \<and>
     (0 < distance nb \<longrightarrow>
        occupied (bs ! ((hash nb + distance nb - 1) mod length bs)) \<and>
        distance nb \<le> distance (bs ! ((hash nb + distance nb - 1) mod length bs)) + 1)"

text \<open>The tables a constructor of FastHashSet returns.\<close>

inductive constructed :: "('k \<Rightarrow> nat) \<Rightarrow> 'k \<Rightarrow> 'k FastHashSet \<Rightarrow> bool" for hasher dk where
  constructed_default: "constructed hasher dk (FastHashSet_default dk)"
| constructed_capacity: "FastHashSet_capacity dk c = Some s \<Longrightarrow> constructed hasher dk s"
| constructed_init: "FastHashSet_init hasher dk init = Some s \<Longrightarrow> constructed hasher dk s"
| constructed_range: "FastHashSet_range hasher dk randomAccess keys = Some s \<Longrightarrow> constructed hasher dk s"

section \<open>Auxiliary definitions for PerfectHashMap\<close>

text \<open>The slot the construction gives to an item with hash \<open>h\<close> of home bucket \<open>i\<close>: the
  home slot for a single-item bucket, the seeded slot otherwise.\<close>

definition slotOf ::
  "('w::len word \<Rightarrow> 'w word \<Rightarrow> nat \<Rightarrow> 'w word) \<Rightarrow> nat \<Rightarrow> (nat \<times> 'w word) list list
     \<Rightarrow> 'w word list \<Rightarrow> nat \<Rightarrow> 'w word \<Rightarrow> nat" where
  "slotOf seedMix ts buckets seeds i h =
     (if length (buckets ! i) = 1 then i else unat (seedMix (seeds ! i) h ts) AND (ts - 1))"

text \<open>The state of the placement loop after the home buckets in \<open>D\<close> have been processed:
  their items sit in their slots, every occupied slot holds an item of the batch, the home
  slot of a single-item bucket is taken only by that bucket, and untouched seeds are 0.\<close>

definition chdInv ::
  "('w::len word \<Rightarrow> 'w word \<Rightarrow> nat \<Rightarrow> 'w word) \<Rightarrow> nat \<Rightarrow> (nat \<times> 'w word) list list
     \<Rightarrow> ('k \<times> 'v) list \<Rightarrow> nat set \<Rightarrow> ('k, 'v, 'w word) PerfectHashMap \<Rightarrow> bool" where
  "chdInv seedMix ts buckets items D m \<longleftrightarrow>
     length (m_table m) = ts \<and> length (m_seeds m) = ts \<and> length (m_occupied m) = ts \<and>
     (\<forall>i\<in>D. \<forall>x\<in>set (buckets ! i).
        slotOf seedMix ts buckets (m_seeds m) i (snd x) < ts \<and>
        m_occupied m ! slotOf seedMix ts buckets (m_seeds m) i (snd x) \<and>
        m_table m ! slotOf seedMix ts buckets (m_seeds m) i (snd x) = items ! fst x) \<and>
     (\<forall>i\<in>D. length (buckets ! i) = 1 \<longrightarrow> m_seeds m ! i = - word_of_nat (i + 1)) \<and>
     (\<forall>p<ts. m_occupied m ! p \<longrightarrow> (\<exists>idx<length items. m_table m ! p = items ! idx)) \<and>
     (\<forall>p<ts. m_occupied m ! p \<longrightarrow> length (buckets ! p) = 1 \<longrightarrow> p \<in> D) \<and>
     (\<forall>i<ts. i \<notin> D \<longrightarrow> m_seeds m ! i = 0)"

text \<open>The constructor with the result of \<open>std::sort\<close> left open: the comparator orders the
  buckets by descending size and says nothing about buckets of equal size, so \<open>order\<close> stands
  for any function that returns its argument rearranged. \<open>PerfectHashMap_ctor\<close> is the case
  \<open>order = sortBySize\<close>.\<close>

definition PerfectHashMap_ctor_ordered ::
  "((nat \<times> (nat \<times> 'w word) list) list \<Rightarrow> (nat \<times> (nat \<times> 'w word) list) list)
     \<Rightarrow> ('k \<Rightarrow> 'w::len word) \<Rightarrow> ('w word \<Rightarrow> 'w word \<Rightarrow> nat \<Rightarrow> 'w word) \<Rightarrow> ('k \<times> 'v) \<Rightarrow> ('k \<times> 'v) list
     \<Rightarrow> (error + ('k, 'v, 'w word) PerfectHashMap) option" where
  "PerfectHashMap_ctor_ordered order hasher seedMix dflt items =
     (let itemCount = length items in
      if itemCount = 0 then
        Some (Inr \<lparr>m_itemCount = itemCount, m_table = items, m_seeds = [], m_occupied = []\<rparr>)
      else if hasDuplicateKeys [] (map fst items) then Some (Inl DuplicateKeys)
      else
        case growPow2 1 itemCount of
          None \<Rightarrow> None
        | Some c \<Rightarrow>
            let tableSize = 2 * c;
                buckets = fillBuckets hasher tableSize items;
                sorted = order (indexedBuckets tableSize buckets)
            in map_option Inr
                 (processBuckets seedMix tableSize buckets items sorted
                    \<lparr>m_itemCount = itemCount,
                     m_table = replicate tableSize dflt,
                     m_seeds = replicate tableSize 0,
                     m_occupied = replicate tableSize False\<rparr>))"

text \<open>A mixing function that keeps its contract (its value is below the table size) and
  separates two items of a bucket only for the last seed, \<open>0xFFFFFFFF\<close>.\<close>

abbreviation lateSeedMix :: "32 word \<Rightarrow> 32 word \<Rightarrow> nat \<Rightarrow> 32 word" where
  "lateSeedMix seed h n \<equiv> of_nat ((if seed = - 1 then unat h div 4 + 1 else 1) mod n)"

section \<open>Arithmetic helpers\<close>

lemma AND_pow2_mod: "(x::nat) AND (2 ^ n - 1) = x mod 2 ^ n"
  by (metis mask_eq_exp_minus_1 take_bit_eq_mask take_bit_eq_mod)

text \<open>The sizing loop started at a power of two stops at the least power of two that is
  not below \<open>n\<close>.\<close>

lemma growPow2_pow:
  "\<exists>e\<ge>a. growPow2 (2 ^ a) n = Some (2 ^ e) \<and> n \<le> 2 ^ e \<and> (a < e \<longrightarrow> 2 ^ (e - 1) < n)"
proof (induction "n - 2 ^ a" arbitrary: a rule: less_induct)
  case less
  show ?case
  proof (cases "2 ^ a < n")
    case True
    have "n - 2 ^ Suc a < n - 2 ^ a" using True by (intro diff_less_mono2) auto
    from less[OF this] obtain e where e: "Suc a \<le> e" "growPow2 (2 ^ Suc a) n = Some (2 ^ e)"
      "n \<le> 2 ^ e" "Suc a < e \<longrightarrow> 2 ^ (e - 1) < n" by blast
    have "growPow2 (2 ^ a) n = growPow2 (2 ^ Suc a) n"
      using True by (subst growPow2.simps) simp
    moreover have "2 ^ (e - 1) < n"
    proof (cases "Suc a < e")
      case True then show ?thesis using e(4) by simp
    next
      case False
      then have "e = Suc a" using e(1) by simp
      then show ?thesis using \<open>2 ^ a < n\<close> by simp
    qed
    ultimately show ?thesis using e by (intro exI[of _ e]) auto
  next
    case False
    then have "growPow2 (2 ^ a) n = Some (2 ^ a)" by (subst growPow2.simps) simp
    then show ?thesis using False by (intro exI[of _ a]) auto
  qed
qed

lemma growPow2_1:
  "\<exists>e. growPow2 1 n = Some (2 ^ e) \<and> n \<le> 2 ^ e \<and> (0 < e \<longrightarrow> 2 ^ (e - 1) < n)"
  using growPow2_pow[of 0 n] by auto

section \<open>PerfectHashMap: sizing, duplicate rejection, the empty map\<close>

lemma hasDuplicateKeys_iff:
  "hasDuplicateKeys seen ks \<longleftrightarrow> \<not> distinct ks \<or> set seen \<inter> set ks \<noteq> {}"
  by (induction seen ks rule: hasDuplicateKeys.induct) auto

lemma placeItems_length:
  "length (m_table (placeItems items bucket positions m)) = length (m_table m)"
proof -
  have "length (m_table (foldl (\<lambda>m i. let itemIndex = fst (bucket ! i); pos = positions ! i
                   in m\<lparr>m_table := (m_table m)[pos := items ! itemIndex],
                        m_occupied := (m_occupied m)[pos := True]\<rparr>) m is)) = length (m_table m)" for "is"
    by (induction "is" arbitrary: m) (simp_all add: Let_def)
  then show ?thesis by (simp add: placeItems_def)
qed

lemma processBuckets_length:
  "processBuckets seedMix tableSize buckets items ibs m = Some m' \<Longrightarrow>
     length (m_table m') = length (m_table m)"
proof (induction ibs arbitrary: m)
  case Nil
  then show ?case by simp
next
  case (Cons ib ibs)
  obtain bucketIndex bucket where ib: "ib = (bucketIndex, bucket)" by (cases ib)
  show ?case
  proof (cases "length bucket = 1")
    case True
    with Cons.prems ib Cons.IH show ?thesis by (auto simp: Let_def)
  next
    case False
    with Cons.prems ib obtain seed positions where
      "processBuckets seedMix tableSize buckets items ibs
         ((placeItems items bucket positions m)\<lparr>m_seeds :=
            (m_seeds (placeItems items bucket positions m))[unat (snd (bucket ! 0)) AND (tableSize - 1) := seed]\<rparr>) = Some m'"
      by (auto simp: Let_def split: option.splits)
    from Cons.IH[OF this] show ?thesis by (simp add: placeItems_length)
  qed
qed

text \<open>Three single-item buckets: keys 0, 1, 2 hashed to themselves (32-bit hash).\<close>

lemma ctor_three_items:
  "PerfectHashMap_ctor (\<lambda>k. of_nat k :: 32 word) (\<lambda>seed h n. seed + h) (0, 0)
     [(0::nat, 10::nat), (1, 11), (2, 12)]
   = Some (Inr \<lparr>m_itemCount = 3,
                m_table = [(0, 10), (1, 11), (2, 12), (0, 0), (0, 0), (0, 0), (0, 0), (0, 0)],
                m_seeds = [- 1, - 2, - 3, 0, 0, 0, 0, 0],
                m_occupied = [True, True, True, False, False, False, False, False]\<rparr>)"
  by code_simp

text \<open>
  Claim C7, as stated: the table size \<open>size()\<close> of a map built from a non-empty
  duplicate-free batch is the smallest power of two strictly greater than \<open>itemCount\<close>.
  This fails for three items: the smallest power of two above 3 is 4, the table has 8 slots.
\<close>

theorem table_size_three_items_counterexample:
  "map_option (map_sum id PerfectHashMap_size)
     (PerfectHashMap_ctor (\<lambda>k. of_nat k :: 32 word) (\<lambda>seed h n. seed + h) (0, 0)
        [(0::nat, 10::nat), (1, 11), (2, 12)]) = Some (Inr 8)
   \<and> (4::nat) = 2 ^ 2 \<and> (3::nat) < 4 \<and> (4::nat) < 8"
  by code_simp

text \<open>
  Claim C7, amended: whenever the construction of a non-empty batch completes, the table
  size \<open>size()\<close> is twice the smallest power of two that is at least \<open>itemCount\<close>
  (the loop stops at the first power of two not below \<open>itemCount\<close>, then doubles once).
\<close>

theorem table_size_twice_pow2:
  assumes "PerfectHashMap_ctor hasher seedMix dflt items = Some (Inr m)" and "items \<noteq> []"
  shows "\<exists>e. PerfectHashMap_size m = 2 * 2 ^ e \<and> length items \<le> 2 ^ e
              \<and> (0 < e \<longrightarrow> 2 ^ (e - 1) < length items)"
proof -
  obtain e where e: "growPow2 1 (length items) = Some (2 ^ e)" "length items \<le> 2 ^ e"
      "0 < e \<longrightarrow> 2 ^ (e - 1) < length items"
    using growPow2_1 by blast
  from assms e(1) have "length (m_table m) = 2 * 2 ^ e"
    by (auto simp: PerfectHashMap_ctor_def Let_def split: if_splits dest!: processBuckets_length)
  with e show ?thesis by (auto simp: PerfectHashMap_size_def)
qed

theorem table_size_twice_pow2_witness:
  "PerfectHashMap_ctor (\<lambda>k. of_nat k :: 32 word) (\<lambda>seed h n. seed + h) (0, 0)
     [(0::nat, 10::nat), (1, 11), (2, 12)]
   = Some (Inr \<lparr>m_itemCount = 3,
                m_table = [(0, 10), (1, 11), (2, 12), (0, 0), (0, 0), (0, 0), (0, 0), (0, 0)],
                m_seeds = [- 1, - 2, - 3, 0, 0, 0, 0, 0],
                m_occupied = [True, True, True, False, False, False, False, False]\<rparr>)
   \<and> [(0::nat, 10::nat), (1, 11), (2, 12)] \<noteq> []
   \<and> (\<exists>e. PerfectHashMap_size
             \<lparr>m_itemCount = 3,
              m_table = [(0::nat, 10::nat), (1, 11), (2, 12), (0, 0), (0, 0), (0, 0), (0, 0), (0, 0)],
              m_seeds = [- 1, - 2, - 3, 0, 0, 0, 0, 0 :: 32 word],
              m_occupied = [True, True, True, False, False, False, False, False]\<rparr> = 2 * 2 ^ e
            \<and> length [(0::nat, 10::nat), (1, 11), (2, 12)] \<le> 2 ^ e
            \<and> (0 < e \<longrightarrow> 2 ^ (e - 1) < length [(0::nat, 10::nat), (1, 11), (2, 12)]))"
  using ctor_three_items table_size_twice_pow2[OF ctor_three_items] by simp

text \<open>
  Claim C8: a batch that holds two equal keys makes the constructor throw the
  duplicate-key error; the check runs before the table is sized or filled, so the only
  outcome is the error.
\<close>

theorem duplicate_keys_rejected:
  assumes "\<not> distinct (map fst items)"
  shows "PerfectHashMap_ctor hasher seedMix dflt items = Some (Inl DuplicateKeys)"
proof -
  from assms have "items \<noteq> []" by auto
  moreover from assms have "hasDuplicateKeys [] (map fst items)"
    by (simp add: hasDuplicateKeys_iff)
  ultimately show ?thesis by (simp add: PerfectHashMap_ctor_def)
qed

theorem duplicate_keys_rejected_witness:
  "\<not> distinct (map fst [(''k'', 1::nat), (''k'', 2)]) \<and>
   PerfectHashMap_ctor (\<lambda>k. of_nat (length k) :: 32 word) (\<lambda>seed h n. seed + h) ('''', 0)
     [(''k'', 1::nat), (''k'', 2)] = Some (Inl DuplicateKeys)"
  using duplicate_keys_rejected[of "[(''k'', 1::nat), (''k'', 2)]"
      "\<lambda>k. of_nat (length k) :: 32 word" "\<lambda>seed h n. seed + h" "('''', 0)"]
  by simp

text \<open>
  Claim C10: on the default-constructed map every query is answered without touching the
  (empty) arrays: \<open>find\<close> gives \<open>nullptr\<close>, \<open>contains\<close> false, \<open>at\<close> throws the not-found
  error, \<open>size()\<close> is 0 and \<open>isEmpty()\<close> holds. An out-of-range read would show as
  \<open>Inl OutOfBounds\<close>.
\<close>

theorem empty_map_queries:
  "PerfectHashMap_find hasher seedMix PerfectHashMap_default k = Inr None \<and>
   PerfectHashMap_contains hasher seedMix PerfectHashMap_default k = Inr False \<and>
   PerfectHashMap_at hasher seedMix PerfectHashMap_default k = Inl KeyNotFound \<and>
   PerfectHashMap_size PerfectHashMap_default = 0 \<and>
   PerfectHashMap_isEmpty PerfectHashMap_default"
  by (simp add: PerfectHashMap_find_def PerfectHashMap_contains_def PerfectHashMap_at_def
      PerfectHashMap_size_def PerfectHashMap_isEmpty_def PerfectHashMap_default_def)

section \<open>FastHashSet: termination and shape\<close>

subsection \<open>Positions modulo the capacity\<close>

lemma mask_mod: "n = 2 ^ e \<Longrightarrow> (x::nat) AND (n - 1) = x mod n"
  by (metis AND_pow2_mod)

lemma reach_slot:
  assumes "e < n"
  shows "\<exists>j<n. (x + j) mod n = (e::nat)"
proof (cases "x mod n \<le> e")
  case True
  have "(x + (e - x mod n)) mod n = (x mod n + (e - x mod n)) mod n"
    by (simp add: mod_add_left_eq)
  also have "\<dots> = e" using True assms by simp
  finally show ?thesis using assms True by (intro exI[of _ "e - x mod n"]) auto
next
  case False
  have lt: "x mod n < n" using assms by simp
  have "(x + (n - x mod n + e)) mod n = (x mod n + (n - x mod n + e)) mod n"
    by (simp add: mod_add_left_eq)
  also have "x mod n + (n - x mod n + e) = n + e" using lt by simp
  also have "(n + e) mod n = e" using assms by simp
  finally show ?thesis using assms False lt by (intro exI[of _ "n - x mod n + e"]) auto
qed

lemma pred_unique:
  "p < n \<Longrightarrow> p' < n \<Longrightarrow> Suc p mod n = Suc p' mod n \<Longrightarrow> p = p'"
  by (auto simp: mod_Suc split: if_splits)

lemma step_reach:
  assumes "(pos + Suc j) mod n = e"
  shows "(Suc pos mod n + j) mod n = e"
  using assms by (simp add: mod_add_left_eq)

subsection \<open>Counting occupied buckets\<close>

lemma occupiedCount_update:
  "i < length bs \<Longrightarrow>
     occupiedCount (bs[i := b]) + (if occupied (bs ! i) then 1 else 0)
       = occupiedCount bs + (if occupied b then 1 else 0)"
  unfolding occupiedCount_def
proof (induction bs arbitrary: i)
  case Nil
  then show ?case by simp
next
  case (Cons a bs)
  then show ?case by (cases i) auto
qed

lemma occupiedCount_le: "occupiedCount bs \<le> length bs"
  by (simp add: occupiedCount_def)

lemma occupiedCount_replicate [simp]: "occupiedCount (replicate n (emptyBucket dk)) = 0"
  by (simp add: occupiedCount_def emptyBucket_def)

lemma free_slot_exists:
  assumes "occupiedCount bs < length bs"
  shows "\<exists>e<length bs. \<not> occupied (bs ! e)"
proof (rule ccontr)
  assume "\<not> ?thesis"
  then have "\<forall>b\<in>set bs. occupied b" by (auto simp: in_set_conv_nth)
  then have "filter occupied bs = bs" by (simp add: filter_id_conv)
  then show False using assms by (simp add: occupiedCount_def)
qed

subsection \<open>The loops of insertInternal return\<close>

lemma probeLoop_returns:
  assumes "n = 2 ^ ex" "length bs = n" "e < n" "\<not> occupied (bs ! e)"
  shows "(pos + j) mod n = e \<Longrightarrow> pos < n \<Longrightarrow>
     \<exists>r. probeLoop bs (n - 1) h k pos d = Some r \<and>
         (case r of KeyExists \<Rightarrow> True
          | InsertAt pos' d' \<Rightarrow> pos' < n \<and> (\<exists>j'. (pos' + j') mod n = e))"
proof (induction j arbitrary: pos d)
  case 0
  then have "pos = e" by simp
  then show ?case using assms 0 by (subst probeLoop.simps) (auto intro: exI[of _ 0])
next
  case (Suc j)
  have npos: "0 < n" using assms by simp
  show ?case
  proof (cases "occupied (bs ! pos) \<and> \<not> (hash (bs ! pos) = h \<and> key (bs ! pos) = k) \<and> \<not> d > distance (bs ! pos)")
    case True
    have nx: "(pos + 1) AND (n - 1) = Suc pos mod n"
      using mask_mod[OF assms(1), of "pos + 1"] by simp
    have "(Suc pos mod n + j) mod n = e" using Suc.prems(1) by (rule step_reach)
    from Suc.IH[OF this, of "d + 1"] npos
    obtain r where "probeLoop bs (n - 1) h k (Suc pos mod n) (d + 1) = Some r"
      "(case r of KeyExists \<Rightarrow> True | InsertAt pos' d' \<Rightarrow> pos' < n \<and> (\<exists>j'. (pos' + j') mod n = e))"
      by auto
    then show ?thesis using True nx by (subst probeLoop.simps) auto
  next
    case False
    then show ?thesis using Suc.prems
      by (subst probeLoop.simps) (auto intro: exI[of _ "Suc j"])
  qed
qed

lemma displaceLoop_returns:
  assumes "n = 2 ^ ex"
  shows "length bs = n \<Longrightarrow> e < n \<Longrightarrow> \<not> occupied (bs ! e) \<Longrightarrow> (pos + j) mod n = e \<Longrightarrow> pos < n
     \<Longrightarrow> occupied nb \<Longrightarrow>
     \<exists>bs'. displaceLoop bs (n - 1) nb pos = Some bs' \<and> length bs' = n \<and>
           occupiedCount bs' = occupiedCount bs + 1"
proof (induction j arbitrary: bs nb pos)
  case 0
  then have "pos = e" by simp
  then show ?case using 0 occupiedCount_update[of e bs nb]
    by (subst displaceLoop.simps) auto
next
  case (Suc j)
  have npos: "0 < n" using assms by simp
  have nx: "(pos + 1) AND (n - 1) = Suc pos mod n"
      using mask_mod[OF assms(1), of "pos + 1"] by simp
  have reach: "(Suc pos mod n + j) mod n = e" using Suc.prems(4) by (rule step_reach)
  show ?case
  proof (cases "occupied (bs ! pos)")
    case False
    then show ?thesis using Suc.prems occupiedCount_update[of pos bs nb]
      by (subst displaceLoop.simps) auto
  next
    case occ: True
    then have ne: "e \<noteq> pos" using Suc.prems by auto
    show ?thesis
    proof (cases "distance nb > distance (bs ! pos)")
      case True
      let ?bs = "bs[pos := nb]" and ?nb = "(bs ! pos)\<lparr>distance := distance (bs ! pos) + 1\<rparr>"
      have "\<exists>bs'. displaceLoop ?bs (n - 1) ?nb (Suc pos mod n) = Some bs' \<and> length bs' = n \<and>
           occupiedCount bs' = occupiedCount ?bs + 1"
        using Suc.prems ne occ npos by (intro Suc.IH reach) auto
      moreover have "occupiedCount ?bs = occupiedCount bs"
        using occupiedCount_update[of pos bs nb] Suc.prems occ by simp
      ultimately show ?thesis using True occ nx by (subst displaceLoop.simps) auto
    next
      case False
      let ?nb = "nb\<lparr>distance := distance nb + 1\<rparr>"
      have "\<exists>bs'. displaceLoop bs (n - 1) ?nb (Suc pos mod n) = Some bs' \<and> length bs' = n \<and>
           occupiedCount bs' = occupiedCount bs + 1"
        using Suc.prems npos by (intro Suc.IH reach) auto
      then show ?thesis using False occ nx by (subst displaceLoop.simps) auto
    qed
  qed
qed

text \<open>The fast path of \<open>insertInternal\<close> is the general path taken at once.\<close>

lemma insertAfterResize_returns:
  assumes wf: "wf_table s" and room: "m_size s < m_capacity s"
  shows "\<exists>r s'. insertAfterResize hasher s k = Some (r, s') \<and> wf_table s' \<and>
           m_capacity s' = m_capacity s \<and> m_size s' = m_size s + (if r then 1 else 0)"
proof -
  from wf obtain ex where n: "m_capacity s = 2 ^ ex" and len: "length (m_buckets s) = m_capacity s"
    and msk: "m_mask s = m_capacity s - 1" and sz: "m_size s = occupiedCount (m_buckets s)"
    by (auto simp: wf_table_def)
  let ?n = "m_capacity s" and ?bs = "m_buckets s"
  have npos: "0 < ?n" using n by simp
  from room sz len obtain e where e: "e < ?n" "\<not> occupied (?bs ! e)"
    using free_slot_exists[of ?bs] by auto
  let ?pos = "hasher k AND m_mask s"
  have pos: "?pos = hasher k mod ?n" using mask_mod[OF n, of "hasher k"] msk by simp
  then have posn: "?pos < ?n" using npos by simp
  obtain j where j: "(?pos + j) mod ?n = e" using reach_slot[OF e(1)] by blast
  show ?thesis
  proof (cases "occupied (?bs ! ?pos)")
    case False
    let ?s' = "s\<lparr>m_buckets := ?bs[?pos := \<lparr>key = k, hash = hasher k, distance = 0, occupied = True\<rparr>],
                 m_size := m_size s + 1\<rparr>"
    have "insertAfterResize hasher s k = Some (True, ?s')"
      using False by (simp add: insertAfterResize_def Let_def)
    moreover have "wf_table ?s'"
      using wf False posn len occupiedCount_update[of ?pos ?bs "\<lparr>key = k, hash = hasher k, distance = 0, occupied = True\<rparr>"]
      by (auto simp: wf_table_def)
    ultimately show ?thesis by auto
  next
    case True
    from probeLoop_returns[OF n len e j posn, of "hasher k" k 0]
    obtain r where r: "probeLoop ?bs (?n - 1) (hasher k) k ?pos 0 = Some r"
      "(case r of KeyExists \<Rightarrow> True | InsertAt pos' d' \<Rightarrow> pos' < ?n \<and> (\<exists>j'. (pos' + j') mod ?n = e))"
      by blast
    show ?thesis
    proof (cases r)
      case KeyExists
      then have "insertAfterResize hasher s k = Some (False, s)"
        using True r msk by (simp add: insertAfterResize_def Let_def)
      then show ?thesis using wf by auto
    next
      case (InsertAt pos' d')
      with r obtain j' where p': "pos' < ?n" "(pos' + j') mod ?n = e" by auto
      let ?nb = "\<lparr>key = k, hash = hasher k, distance = d', occupied = True\<rparr>"
      from displaceLoop_returns[OF n len e p'(2) p'(1), of ?nb]
      obtain bs' where bs': "displaceLoop ?bs (?n - 1) ?nb pos' = Some bs'" "length bs' = ?n"
        "occupiedCount bs' = occupiedCount ?bs + 1" by auto
      let ?s' = "s\<lparr>m_buckets := bs', m_size := m_size s + 1\<rparr>"
      have "insertAfterResize hasher s k = Some (True, ?s')"
        using True r InsertAt bs' msk by (simp add: insertAfterResize_def Let_def)
      moreover have "wf_table ?s'" using wf bs' by (auto simp: wf_table_def)
      ultimately show ?thesis by auto
    qed
  qed
qed

subsection \<open>resize, insertInternal and reserve return\<close>

lemma insertInternal_no_resize:
  "\<not> shouldResize s \<Longrightarrow> insertInternal hasher dk s k = insertAfterResize hasher s k"
  by (subst insertInternal.simps) simp

lemma wf_freshTable: "wf_table (freshTable dk (2 ^ e))"
  by (auto simp: wf_table_def freshTable_def)

lemma reinsertAll_returns:
  "wf_table s \<Longrightarrow> (m_size s + occupiedCount old) * 100 < m_capacity s * 75 + 100 \<Longrightarrow>
     \<exists>s'. reinsertAll (insertInternal hasher dk) old s = Some s' \<and> wf_table s' \<and>
          m_capacity s' = m_capacity s \<and> m_size s' \<le> m_size s + occupiedCount old"
proof (induction old arbitrary: s)
  case Nil
  then show ?case by simp
next
  case (Cons b old)
  show ?case
  proof (cases "occupied b")
    case False
    then have "occupiedCount (b # old) = occupiedCount old" by (simp add: occupiedCount_def)
    with Cons False show ?thesis by simp
  next
    case True
    then have oc: "occupiedCount (b # old) = Suc (occupiedCount old)"
      by (simp add: occupiedCount_def)
    with Cons.prems have small: "m_size s * 100 < m_capacity s * 75" by simp
    then have nr: "\<not> shouldResize s" by (simp add: shouldResize_def MAX_LOAD_FACTOR_PERCENT_def)
    from small have room: "m_size s < m_capacity s" by simp
    from insertAfterResize_returns[OF Cons.prems(1) room, of hasher "key b"]
    obtain r s1 where s1: "insertAfterResize hasher s (key b) = Some (r, s1)" "wf_table s1"
      "m_capacity s1 = m_capacity s" "m_size s1 = m_size s + (if r then 1 else 0)" by blast
    have "(m_size s1 + occupiedCount old) * 100 < m_capacity s1 * 75 + 100"
      using Cons.prems(2) s1 oc by (auto split: if_splits)
    from Cons.IH[OF s1(2) this] obtain s' where
      "reinsertAll (insertInternal hasher dk) old s1 = Some s'" "wf_table s'"
      "m_capacity s' = m_capacity s1" "m_size s' \<le> m_size s1 + occupiedCount old" by blast
    then show ?thesis using True s1 oc insertInternal_no_resize[OF nr, of hasher dk "key b"]
      by (auto split: if_splits)
  qed
qed

lemma resize_returns:
  assumes "wf_table s"
  shows "\<exists>s'. resize hasher dk s = Some s' \<and> wf_table s' \<and>
           m_capacity s' = 2 * m_capacity s \<and> m_size s' \<le> m_size s"
proof -
  from assms obtain e where e: "m_capacity s = 2 ^ e" and len: "length (m_buckets s) = m_capacity s"
    and sz: "m_size s = occupiedCount (m_buckets s)" by (auto simp: wf_table_def)
  let ?f = "freshTable dk (2 * m_capacity s)"
  have "wf_table ?f" using wf_freshTable[of dk "Suc e"] e by simp
  moreover have "(m_size ?f + occupiedCount (m_buckets s)) * 100 < m_capacity ?f * 75 + 100"
    using occupiedCount_le[of "m_buckets s"] len by (simp add: freshTable_def)
  ultimately obtain s' where "reinsertAll (insertInternal hasher dk) (m_buckets s) ?f = Some s'"
    "wf_table s'" "m_capacity s' = m_capacity ?f" "m_size s' \<le> m_size ?f + occupiedCount (m_buckets s)"
    using reinsertAll_returns[of ?f "m_buckets s" hasher dk] by blast
  then show ?thesis using sz by (auto simp: resize_def resizeWith_def freshTable_def)
qed

lemma insertInternal_returns:
  assumes "wf_table s"
  shows "\<exists>r s'. insertInternal hasher dk s k = Some (r, s') \<and> wf_table s' \<and>
           m_capacity s' = (if shouldResize s then 2 * m_capacity s else m_capacity s) \<and>
           m_size s' \<le> m_size s + 1 \<and> m_size s' * 100 < m_capacity s' * 75 + 100"
proof (cases "shouldResize s")
  case False
  then have small: "m_size s * 100 < m_capacity s * 75"
    by (simp add: shouldResize_def MAX_LOAD_FACTOR_PERCENT_def)
  then have room: "m_size s < m_capacity s" by simp
  from insertAfterResize_returns[OF assms room, of hasher k]
  obtain r s' where "insertAfterResize hasher s k = Some (r, s')" "wf_table s'"
      "m_capacity s' = m_capacity s" "m_size s' = m_size s + (if r then 1 else 0)" by blast
  then show ?thesis using False small insertInternal_no_resize[OF False, of hasher dk k]
    by (auto split: if_splits)
next
  case True
  from assms obtain e where e: "m_capacity s = 2 ^ e" and len: "length (m_buckets s) = m_capacity s"
    and sz: "m_size s = occupiedCount (m_buckets s)" by (auto simp: wf_table_def)
  have cpos: "0 < m_capacity s" using e by simp
  have le: "m_size s \<le> m_capacity s" using sz len occupiedCount_le[of "m_buckets s"] by simp
  from resize_returns[OF assms, of hasher dk] obtain s1 where s1: "resize hasher dk s = Some s1"
    "wf_table s1" "m_capacity s1 = 2 * m_capacity s" "m_size s1 \<le> m_size s" by blast
  have room: "m_size s1 < m_capacity s1" using s1 le cpos by simp
  from insertAfterResize_returns[OF s1(2) room, of hasher k]
  obtain r s' where s': "insertAfterResize hasher s1 k = Some (r, s')" "wf_table s'"
      "m_capacity s' = m_capacity s1" "m_size s' = m_size s1 + (if r then 1 else 0)" by blast
  have "insertInternal hasher dk s k = Some (r, s')"
    using True s1(1) s'(1) by (subst insertInternal.simps) (simp add: resize_def)
  then show ?thesis using True s1 s' le cpos by (auto split: if_splits)
qed

lemma pow2_less_double:
  fixes a b :: nat
  assumes "(2::nat) ^ a < 2 ^ b"
  shows "2 * 2 ^ a \<le> (2::nat) ^ b"
proof -
  from assms have "a < b" by simp
  then have "Suc a \<le> b" by simp
  then have "(2::nat) ^ Suc a \<le> 2 ^ b" by (rule power_increasing) simp
  then show ?thesis by simp
qed

lemma reserve_returns:
  assumes "wf_table s"
  shows "\<exists>s'. FastHashSet_reserve hasher dk s minCapacity = Some s' \<and> wf_table s' \<and>
           m_capacity s \<le> m_capacity s' \<and> minCapacity \<le> m_capacity s' \<and> m_size s' \<le> m_size s"
proof (cases "minCapacity > m_capacity s")
  case False
  then show ?thesis using assms by (simp add: FastHashSet_reserve_def)
next
  case True
  from assms obtain e where e: "m_capacity s = 2 ^ e" and len: "length (m_buckets s) = m_capacity s"
    and sz: "m_size s = occupiedCount (m_buckets s)" by (auto simp: wf_table_def)
  obtain e' where e': "growPow2 1 minCapacity = Some (2 ^ e')" "minCapacity \<le> 2 ^ e'"
    using growPow2_1 by blast
  have gt: "m_capacity s < 2 ^ e'" using True e' by simp
  then have dbl: "2 * m_capacity s \<le> 2 ^ e'" using pow2_less_double[of e e'] e by simp
  let ?f = "freshTable dk (2 ^ e')"
  have "(m_size ?f + occupiedCount (m_buckets s)) * 100 < m_capacity ?f * 75 + 100"
    using occupiedCount_le[of "m_buckets s"] len dbl by (simp add: freshTable_def)
  with wf_freshTable[of dk e'] obtain s' where
    "reinsertAll (insertInternal hasher dk) (m_buckets s) ?f = Some s'"
    "wf_table s'" "m_capacity s' = m_capacity ?f" "m_size s' \<le> m_size ?f + occupiedCount (m_buckets s)"
    using reinsertAll_returns[of ?f "m_buckets s" hasher dk] by blast
  then show ?thesis using True e' gt sz
    by (auto simp: FastHashSet_reserve_def freshTable_def)
qed

subsection \<open>The other mutators keep the table well-formed\<close>

lemma tryEmplaceLoop_slot:
  assumes n: "n = 2 ^ ex" and eq: "tryEmplaceLoop bs msk h k idx = Some r"
  shows "msk = n - 1 \<longrightarrow> idx < n \<longrightarrow>
     (case r of EmptySlot i \<Rightarrow> i < n \<and> \<not> occupied (bs ! i) | MatchSlot i \<Rightarrow> i < n)"
proof (rule tryEmplaceLoop.raw_induct[where P = "\<lambda>bs msk h k idx r. msk = n - 1 \<longrightarrow> idx < n \<longrightarrow>
     (case r of EmptySlot i \<Rightarrow> i < n \<and> \<not> occupied (bs ! i) | MatchSlot i \<Rightarrow> i < n)", OF _ eq], goal_cases)
  case (1 f bs msk h k idx r)
  have "msk = n - 1 \<Longrightarrow> (idx + 1) AND msk < n" using mask_mod[OF n, of "idx + 1"] n by simp
  with 1 show ?case by (auto split: if_splits)
qed

lemma skipOccupied_slot:
  assumes n: "n = 2 ^ ex" and eq: "skipOccupied bs msk idx = Some i"
  shows "msk = n - 1 \<longrightarrow> idx < n \<longrightarrow> i < n \<and> \<not> occupied (bs ! i)"
proof (rule skipOccupied.raw_induct[where P = "\<lambda>bs msk idx i. msk = n - 1 \<longrightarrow> idx < n \<longrightarrow>
     i < n \<and> \<not> occupied (bs ! i)", OF _ eq], goal_cases)
  case (1 f bs msk idx i)
  have "msk = n - 1 \<Longrightarrow> (idx + 1) AND msk < n" using mask_mod[OF n, of "idx + 1"] n by simp
  with 1 show ?case by (auto split: if_splits)
qed

lemma eraseLoop_slot:
  assumes n: "n = 2 ^ ex" and eq: "eraseLoop bs msk h k pos d = Some r"
  shows "msk = n - 1 \<longrightarrow> pos < n \<longrightarrow> (\<forall>p. r = Some p \<longrightarrow> p < n \<and> occupied (bs ! p))"
proof (rule eraseLoop.raw_induct[where P = "\<lambda>bs msk h k pos d r. msk = n - 1 \<longrightarrow> pos < n \<longrightarrow>
     (\<forall>p. r = Some p \<longrightarrow> p < n \<and> occupied (bs ! p))", OF _ eq], goal_cases)
  case (1 f bs msk h k pos d r)
  have "msk = n - 1 \<Longrightarrow> (pos + 1) AND msk < n" using mask_mod[OF n, of "pos + 1"] n by simp
  with 1 show ?case by (auto split: if_splits)
qed

lemma eraseShiftLoop_count:
  assumes n: "n = 2 ^ ex" and eq: "eraseShiftLoop bs msk dk pos nextPos = Some bs'"
  shows "msk = n - 1 \<longrightarrow> length bs = n \<longrightarrow> pos < n \<longrightarrow> nextPos < n \<longrightarrow>
     length bs' = n \<and> occupiedCount bs' + (if occupied (bs ! pos) then 1 else 0) = occupiedCount bs"
proof (rule eraseShiftLoop.raw_induct[where P = "\<lambda>bs msk dk pos nextPos bs'.
     msk = n - 1 \<longrightarrow> length bs = n \<longrightarrow> pos < n \<longrightarrow> nextPos < n \<longrightarrow>
     length bs' = n \<and> occupiedCount bs' + (if occupied (bs ! pos) then 1 else 0) = occupiedCount bs",
     OF _ eq], goal_cases)
  case (1 f bs msk dk pos nextPos bs')
  show ?case
  proof (intro impI)
    assume msk: "msk = n - 1" and len: "length bs = n" and pos: "pos < n" and nxt: "nextPos < n"
    have nx: "(nextPos + 1) AND msk < n" using mask_mod[OF n, of "nextPos + 1"] n msk by simp
    show "length bs' = n \<and> occupiedCount bs' + (if occupied (bs ! pos) then 1 else 0) = occupiedCount bs"
    proof (cases "occupied (bs ! nextPos) \<and> 0 < distance (bs ! nextPos)")
      case True
      let ?mv = "(bs ! nextPos)\<lparr>distance := distance (bs ! nextPos) - 1\<rparr>"
      let ?bs = "bs[pos := ?mv]"
      from True 1(2) have rec: "f ?bs msk dk nextPos ((nextPos + 1) AND msk) = Some bs'"
        by simp
      have "length bs' = n \<and> occupiedCount bs' + (if occupied (?bs ! nextPos) then 1 else 0) = occupiedCount ?bs"
        using 1(1)[OF rec] msk len nxt nx by simp
      moreover have "occupied (?bs ! nextPos)" using True len pos nxt by (cases "nextPos = pos") auto
      moreover have "occupiedCount ?bs + (if occupied (bs ! pos) then 1 else 0) = occupiedCount bs + 1"
        using occupiedCount_update[of pos bs ?mv] True len pos by simp
      ultimately show ?thesis by (auto split: if_splits)
    next
      case False
      with 1(2) have "bs' = bs[pos := emptyBucket dk]" by auto
      then show ?thesis using occupiedCount_update[of pos bs "emptyBucket dk"] len pos
        by (auto simp: emptyBucket_def)
    qed
  qed
qed

lemma eraseAtPosition_wf:
  assumes "eraseAtPosition dk s pos = Some s'" "wf_table s" "pos < m_capacity s"
    "occupied (m_buckets s ! pos)"
  shows "wf_table (s'\<lparr>m_size := m_size s' - 1\<rparr>) \<and> m_capacity s' = m_capacity s
         \<and> m_size s' = m_size s \<and> 0 < m_size s"
proof -
  from assms(2) obtain e where e: "m_capacity s = 2 ^ e" and len: "length (m_buckets s) = m_capacity s"
    and msk: "m_mask s = m_capacity s - 1" and sz: "m_size s = occupiedCount (m_buckets s)"
    by (auto simp: wf_table_def)
  from assms(1) obtain bs' where bs': "eraseShiftLoop (m_buckets s) (m_mask s) dk pos ((pos + 1) AND m_mask s) = Some bs'"
    "s' = s\<lparr>m_buckets := bs'\<rparr>" by (auto simp: eraseAtPosition_def)
  have nx: "(pos + 1) AND m_mask s < m_capacity s"
    using mask_mod[OF e, of "pos + 1"] e msk by simp
  from eraseShiftLoop_count[OF e bs'(1)] msk len assms(3) nx assms(4)
  have "length bs' = m_capacity s" "occupiedCount bs' + 1 = occupiedCount (m_buckets s)" by auto
  then show ?thesis using bs'(2) assms(2) sz by (auto simp: wf_table_def)
qed

lemma erase_wf:
  assumes "FastHashSet_erase hasher dk s k = Some (r, s')" "wf_table s"
  shows "wf_table s' \<and> m_capacity s' = m_capacity s"
proof -
  from assms(2) obtain e where e: "m_capacity s = 2 ^ e" and msk: "m_mask s = m_capacity s - 1"
    by (auto simp: wf_table_def)
  have start: "hasher k AND m_mask s < m_capacity s"
    using mask_mod[OF e, of "hasher k"] e msk by simp
  show ?thesis
  proof (cases "eraseLoop (m_buckets s) (m_mask s) (hasher k) k (hasher k AND m_mask s) 0")
    case None
    with assms(1) show ?thesis by (simp add: FastHashSet_erase_def)
  next
    case (Some found)
    show ?thesis
    proof (cases found)
      case None
      with Some assms show ?thesis by (simp add: FastHashSet_erase_def)
    next
      case (Some pos)
      with \<open>eraseLoop _ _ _ _ _ _ = Some found\<close>
      have el: "eraseLoop (m_buckets s) (m_mask s) (hasher k) k (hasher k AND m_mask s) 0 = Some (Some pos)"
        by simp
      from eraseLoop_slot[OF e el] msk start
      have p: "pos < m_capacity s" "occupied (m_buckets s ! pos)" by auto
      from assms(1) el
      obtain s1 where s1: "eraseAtPosition dk s pos = Some s1" "s' = s1\<lparr>m_size := m_size s1 - 1\<rparr>"
        by (auto simp: FastHashSet_erase_def)
      from eraseAtPosition_wf[OF s1(1) assms(2) p]
      have "wf_table (s1\<lparr>m_size := m_size s1 - 1\<rparr>)" "m_capacity s1 = m_capacity s" by blast+
      then show ?thesis unfolding s1(2) by simp
    qed
  qed
qed

lemma erase_at_wf:
  assumes "FastHashSet_erase_at dk s p = Some s'" "wf_table s"
  shows "wf_table s' \<and> m_capacity s' = m_capacity s"
proof (cases "p \<ge> m_capacity s \<or> \<not> occupied (m_buckets s ! p)")
  case True
  with assms show ?thesis by (auto simp: FastHashSet_erase_at_def)
next
  case False
  with assms(1) obtain s1 where s1: "eraseAtPosition dk s p = Some s1" "s' = s1\<lparr>m_size := m_size s1 - 1\<rparr>"
    by (auto simp: FastHashSet_erase_at_def)
  from eraseAtPosition_wf[OF s1(1) assms(2)] False
  have "wf_table (s1\<lparr>m_size := m_size s1 - 1\<rparr>)" "m_capacity s1 = m_capacity s" by auto
  then show ?thesis unfolding s1(2) by simp
qed

lemma clear_wf: "wf_table s \<Longrightarrow> wf_table (FastHashSet_clear s)"
  by (auto simp: wf_table_def FastHashSet_clear_def occupiedCount_def filter_empty_conv)

lemma tryEmplace_wf:
  assumes "FastHashSet_tryEmplace hasher dk s k = Some (i, r, s')" "wf_table s"
  shows "wf_table s'"
proof -
  from assms(2) obtain e where e: "m_capacity s = 2 ^ e" and msk: "m_mask s = m_capacity s - 1"
    and len: "length (m_buckets s) = m_capacity s"
    by (auto simp: wf_table_def)
  have start: "hasher k AND m_mask s < m_capacity s"
    using mask_mod[OF e, of "hasher k"] e msk by simp
  from assms(1) obtain sl where sl: "tryEmplaceLoop (m_buckets s) (m_mask s) (hasher k) k (hasher k AND m_mask s) = Some sl"
    by (auto simp: FastHashSet_tryEmplace_def Let_def split: option.splits)
  show ?thesis
  proof (cases sl)
    case (MatchSlot idx)
    with assms sl show ?thesis by (simp add: FastHashSet_tryEmplace_def Let_def)
  next
    case (EmptySlot idx)
    with tryEmplaceLoop_slot[OF e sl] msk start
    have idx: "idx < m_capacity s" "\<not> occupied (m_buckets s ! idx)"
      by auto
    let ?nb = "\<lambda>s' idx'. (m_buckets s' ! idx')\<lparr>key := k, hash := hasher k, distance := 0, occupied := True\<rparr>"
    have place: "wf_table (t\<lparr>m_buckets := (m_buckets t)[j := ?nb t j], m_size := m_size t + 1\<rparr>)"
      if "wf_table t" "j < m_capacity t" "\<not> occupied (m_buckets t ! j)" for t j
      using that occupiedCount_update[of j "m_buckets t" "?nb t j"]
      by (auto simp: wf_table_def)
    show ?thesis
    proof (cases "shouldResize s")
      case False
      with assms(1) sl EmptySlot
      have "s' = s\<lparr>m_buckets := (m_buckets s)[idx := ?nb s idx], m_size := m_size s + 1\<rparr>"
        by (auto simp: FastHashSet_tryEmplace_def Let_def)
      with place[OF assms(2) idx] show ?thesis by simp
    next
      case True
      with assms(1) sl EmptySlot obtain s1 idx' where
        s1: "resize hasher dk s = Some s1"
        and sk: "skipOccupied (m_buckets s1) (m_mask s1) (hasher k AND m_mask s1) = Some idx'"
        and s': "s' = s1\<lparr>m_buckets := (m_buckets s1)[idx' := ?nb s1 idx'], m_size := m_size s1 + 1\<rparr>"
        by (auto simp: FastHashSet_tryEmplace_def Let_def split: Option.bind_splits)
      from resize_returns[OF assms(2), of hasher dk] s1 have wf1: "wf_table s1" by auto
      then obtain e1 where e1: "m_capacity s1 = 2 ^ e1" and msk1: "m_mask s1 = m_capacity s1 - 1"
        by (auto simp: wf_table_def)
      have start1: "hasher k AND m_mask s1 < m_capacity s1"
        using mask_mod[OF e1, of "hasher k"] e1 msk1 by simp
      from skipOccupied_slot[OF e1 sk] msk1 start1
      have "idx' < m_capacity s1" "\<not> occupied (m_buckets s1 ! idx')" by auto
      from place[OF wf1 this] s' show ?thesis by simp
    qed
  qed
qed

subsection \<open>Every reachable table is well-formed\<close>

lemma applyOp_wf:
  assumes "applyOp hasher dk op s = Some s'" "wf_table s"
  shows "wf_table s'"
proof (cases op)
  case (Insert k)
  with assms insertInternal_returns[OF assms(2), of hasher dk k] show ?thesis
    by (auto simp: FastHashSet_insert_def)
next
  case (Emplace k)
  with assms insertInternal_returns[OF assms(2), of hasher dk k] show ?thesis
    by (auto simp: FastHashSet_emplace_def)
next
  case (TryEmplace k)
  with assms show ?thesis by (auto dest: tryEmplace_wf)
next
  case (Erase k)
  with assms show ?thesis by (auto dest: erase_wf)
next
  case (EraseAt p)
  with assms show ?thesis by (auto dest: erase_at_wf)
next
  case Clear
  with assms show ?thesis by (auto intro: clear_wf)
next
  case (Reserve n)
  with assms reserve_returns[OF assms(2), of hasher dk n] show ?thesis by auto
qed

lemma wf_default: "wf_table (FastHashSet_default dk)"
  using wf_freshTable[of dk 5] by (simp add: FastHashSet_default_def INITIAL_CAPACITY_def)

lemma capacity_ctor_returns:
  "\<exists>e. FastHashSet_capacity dk c = Some (freshTable dk (2 ^ e)) \<and> c \<le> 2 ^ e"
  using growPow2_1[of c] by (auto simp: FastHashSet_capacity_def)

lemma reachable_wf: "reachable hasher dk s \<Longrightarrow> wf_table s"
proof (induction rule: reachable.induct)
  case reachable_default
  show ?case by (rule wf_default)
next
  case (reachable_capacity c s)
  then show ?case using capacity_ctor_returns[of dk c] wf_freshTable by auto
next
  case (reachable_step s op s')
  then show ?case by (auto intro: applyOp_wf)
qed

subsection \<open>The load factor after insert\<close>

text \<open>
  Claim C4, as stated: after every insert on a reachable table,
  \<open>size() * 100 < capacity() * 75\<close>. This fails on the default table after 24 inserts of
  distinct keys: the size is 24, the capacity 32, and \<open>2400 < 2400\<close> is false.
\<close>

theorem load_after_insert_counterexample:
  "map_option (\<lambda>s. (FastHashSet_size s, FastHashSet_capacity_of s,
                     FastHashSet_size s * 100 < FastHashSet_capacity_of s * 75))
     (applyOps (\<lambda>k. k) 0 (map Insert [0..<24]) (FastHashSet_default (0::nat)))
   = Some (24, 32, False)"
  by code_simp

text \<open>
  Claim C4, amended: on every reachable table every insert returns, and afterwards
  \<open>size() * 100 < capacity() * 75 + 100\<close>: the threshold is tested on the size before the
  insertion (\<open>shouldResize\<close>), so the size may reach 75 percent but the size before the
  last insertion was below it. The capacity is doubled exactly when
  \<open>size() * 100 >= capacity() * 75\<close> held on entry, and is unchanged otherwise.
\<close>

theorem load_after_insert:
  assumes "reachable hasher dk s"
  shows "\<exists>r s'. FastHashSet_insert hasher dk s k = Some (r, s') \<and>
           FastHashSet_size s' * 100 < FastHashSet_capacity_of s' * 75 + 100 \<and>
           FastHashSet_capacity_of s' =
             (if FastHashSet_size s * 100 \<ge> FastHashSet_capacity_of s * 75
              then 2 * FastHashSet_capacity_of s else FastHashSet_capacity_of s)"
  using insertInternal_returns[OF reachable_wf[OF assms], of hasher dk k]
  by (auto simp: FastHashSet_insert_def FastHashSet_size_def FastHashSet_capacity_of_def
      shouldResize_def MAX_LOAD_FACTOR_PERCENT_def)

theorem load_after_insert_witness:
  "reachable (\<lambda>k. k) 0 (FastHashSet_default (0::nat)) \<and>
   (\<exists>r s'. FastHashSet_insert (\<lambda>k. k) 0 (FastHashSet_default (0::nat)) 7 = Some (r, s') \<and>
           FastHashSet_size s' * 100 < FastHashSet_capacity_of s' * 75 + 100 \<and>
           FastHashSet_capacity_of s' =
             (if FastHashSet_size (FastHashSet_default (0::nat)) * 100
                   \<ge> FastHashSet_capacity_of (FastHashSet_default (0::nat)) * 75
              then 2 * FastHashSet_capacity_of (FastHashSet_default (0::nat))
              else FastHashSet_capacity_of (FastHashSet_default (0::nat))))"
  using load_after_insert[OF reachable_default, of "\<lambda>k. k" "0::nat" 7]
    reachable_default[of "\<lambda>k. k" "0::nat"]
  by simp

section \<open>FastHashSet: the Robin Hood invariant\<close>

lemma storedKeys_nth: "storedKeys bs = {key (bs ! p) | p. p < length bs \<and> occupied (bs ! p)}"
  by (auto simp: storedKeys_def in_set_conv_nth)

lemma storedKeys_update:
  assumes "pos < length bs" "occupied nb"
  shows "storedKeys (bs[pos := nb]) \<union> (if occupied (bs ! pos) then {key (bs ! pos)} else {})
         = insert (key nb) (storedKeys bs)"
proof -
  have "storedKeys (bs[pos := nb]) =
          insert (key nb) {key (bs ! p) | p. p < length bs \<and> p \<noteq> pos \<and> occupied (bs ! p)}"
    using assms by (auto simp: storedKeys_nth nth_list_update)
  moreover have "storedKeys bs = (if occupied (bs ! pos) then {key (bs ! pos)} else {}) \<union>
      {key (bs ! p) | p. p < length bs \<and> p \<noteq> pos \<and> occupied (bs ! p)}"
    using assms by (auto simp: storedKeys_nth)
  ultimately show ?thesis by auto
qed

subsection \<open>Probe paths\<close>

lemma path_back:
  assumes ch: "chainOk bs" and n: "0 < length bs"
    and top: "occupied (bs ! ((i + d) mod length bs))" "d \<le> distance (bs ! ((i + d) mod length bs))"
    and jd: "j \<le> d"
  shows "occupied (bs ! ((i + j) mod length bs)) \<and> j \<le> distance (bs ! ((i + j) mod length bs))"
  using jd
proof (induction rule: inc_induct)
  case base
  show ?case using top by simp
next
  case (step m)
  let ?n = "length bs"
  let ?p = "(i + m) mod ?n"
  have p: "?p < ?n" using n by simp
  have q: "Suc ?p mod ?n = (i + Suc m) mod ?n" by (simp add: mod_Suc_eq)
  from step.IH have "occupied (bs ! (Suc ?p mod ?n))" "0 < distance (bs ! (Suc ?p mod ?n))"
    "Suc m \<le> distance (bs ! (Suc ?p mod ?n))"
    unfolding q by auto
  with ch p have "occupied (bs ! ?p) \<and> distance (bs ! (Suc ?p mod ?n)) \<le> distance (bs ! ?p) + 1"
    unfolding chainOk_def by blast
  with \<open>Suc m \<le> distance (bs ! (Suc ?p mod ?n))\<close> show ?case by simp
qed

lemma carried_lt:
  assumes ch: "chainOk bs" and e: "e < length bs" "\<not> occupied (bs ! e)"
    and prev: "0 < d \<longrightarrow> occupied (bs ! ((h + d - 1) mod length bs))
                     \<and> d \<le> distance (bs ! ((h + d - 1) mod length bs)) + 1"
  shows "d < length bs"
proof (rule ccontr)
  assume "\<not> d < length bs"
  then have d: "length bs \<le> d" by simp
  with e have dpos: "0 < d" by simp
  obtain j where j: "j < length bs" "(h + j) mod length bs = e" using reach_slot[OF e(1)] by blast
  have "h + d - 1 = h + (d - 1)" using dpos by simp
  with prev dpos have top: "occupied (bs ! ((h + (d - 1)) mod length bs))"
    "d - 1 \<le> distance (bs ! ((h + (d - 1)) mod length bs))" by auto
  have jle: "j \<le> d - 1" using j(1) d by simp
  have npos: "0 < length bs" using e(1) by (cases bs) auto
  from path_back[OF ch npos top jle] j(2) have "occupied (bs ! e)" by simp
  with e(2) show False by simp
qed

subsection \<open>find reaches every stored key\<close>

lemma findLoop_stored:
  assumes n: "length bs = 2 ^ ex" and ch: "chainOk bs"
    and st: "occupied (bs ! p)" "key (bs ! p) = k" "hash (bs ! p) = h"
        "(h + distance (bs ! p)) mod length bs = p"
  shows "j \<le> distance (bs ! p) \<Longrightarrow>
     \<exists>q. findLoop bs (length bs - 1) h k ((h + j) mod length bs) j = Some (Some q) \<and>
         q < length bs \<and> occupied (bs ! q) \<and> key (bs ! q) = k"
proof (induction rule: inc_induct)
  case base
  have "p < length bs" using st(4) n by (metis mod_less_divisor zero_less_numeral zero_less_power)
  then show ?case using st by (subst findLoop.simps) (auto simp: Let_def)
next
  case (step m)
  let ?n = "length bs"
  let ?pos = "(h + m) mod ?n"
  have npos: "0 < ?n" using n by simp
  have top: "occupied (bs ! ((h + distance (bs ! p)) mod ?n))"
    "distance (bs ! p) \<le> distance (bs ! ((h + distance (bs ! p)) mod ?n))"
    using st by auto
  from path_back[OF ch npos top, of m] step.hyps
  have here: "occupied (bs ! ?pos)" "m \<le> distance (bs ! ?pos)" by auto
  have nx: "(?pos + 1) AND (?n - 1) = (h + Suc m) mod ?n"
    using mask_mod[OF n, of "?pos + 1"] by (simp add: mod_Suc_eq)
  show ?case
  proof (cases "hash (bs ! ?pos) = h \<and> key (bs ! ?pos) = k")
    case True
    then show ?thesis using here npos by (subst findLoop.simps) (auto simp: Let_def)
  next
    case False
    then have "findLoop bs (?n - 1) h k ?pos m = findLoop bs (?n - 1) h k ((h + Suc m) mod ?n) (Suc m)"
      using here nx by (subst findLoop.simps) (auto simp: Let_def)
    with step.IH show ?thesis by simp
  qed
qed

lemma find_stored:
  assumes "rh_inv hasher s" "k \<in> storedKeys (m_buckets s)"
  shows "\<exists>q. FastHashSet_find hasher s k = Some (Some q) \<and> q < m_capacity s \<and>
             occupied (m_buckets s ! q) \<and> key (m_buckets s ! q) = k"
proof -
  let ?bs = "m_buckets s"
  from assms(1) obtain ex where n: "m_capacity s = 2 ^ ex" and len: "length ?bs = m_capacity s"
    and msk: "m_mask s = m_capacity s - 1" and rh: "robinHood hasher ?bs"
    by (auto simp: rh_inv_def wf_table_def)
  from assms(2) obtain p where p: "p < length ?bs" "occupied (?bs ! p)" "key (?bs ! p) = k"
    by (auto simp: storedKeys_nth)
  with rh have pr: "hash (?bs ! p) = hasher k" "(hasher k + distance (?bs ! p)) mod length ?bs = p"
    by (auto simp: robinHood_def properAt_def)
  have ch: "chainOk ?bs" using rh by (simp add: robinHood_def)
  have n': "length ?bs = 2 ^ ex" using n len by simp
  from findLoop_stored[OF n' ch p(2,3) pr, of 0]
  obtain q where "findLoop ?bs (length ?bs - 1) (hasher k) k (hasher k mod length ?bs) 0 = Some (Some q)"
    "q < length ?bs" "occupied (?bs ! q)" "key (?bs ! q) = k" by auto
  moreover have "hasher k AND m_mask s = hasher k mod length ?bs"
    using mask_mod[OF n, of "hasher k"] msk len by simp
  ultimately show ?thesis using len msk by (auto simp: FastHashSet_find_def)
qed

subsection \<open>Storing the carried bucket keeps the invariant\<close>

lemma carryOkD:
  assumes "carryOk hasher bs nb pos"
  shows "occupied nb" "hash nb = hasher (key nb)" "(hash nb + distance nb) mod length bs = pos"
    "0 < distance nb \<Longrightarrow> occupied (bs ! ((hash nb + distance nb - 1) mod length bs))"
    "0 < distance nb \<Longrightarrow>
       distance nb \<le> distance (bs ! ((hash nb + distance nb - 1) mod length bs)) + 1"
  using assms unfolding carryOk_def by blast+

lemma carryOkI:
  assumes "occupied nb" "hash nb = hasher (key nb)" "(hash nb + distance nb) mod length bs = pos"
    "0 < distance nb \<Longrightarrow> occupied (bs ! ((hash nb + distance nb - 1) mod length bs))
       \<and> distance nb \<le> distance (bs ! ((hash nb + distance nb - 1) mod length bs)) + 1"
  shows "carryOk hasher bs nb pos"
  using assms unfolding carryOk_def by blast

lemma robinHoodD:
  assumes "robinHood hasher bs" "p < length bs" "occupied (bs ! p)"
  shows "hash (bs ! p) = hasher (key (bs ! p))" "distance (bs ! p) < length bs"
    "(hash (bs ! p) + distance (bs ! p)) mod length bs = p"
  using assms unfolding robinHood_def properAt_def by blast+

lemma carry_prev:
  assumes "0 < d" "0 < n"
  shows "Suc ((h + d - 1) mod n) mod n = (h + d) mod n"
proof -
  have "Suc ((h + d - 1) mod n) mod n = Suc (h + d - 1) mod n" by (simp add: mod_Suc_eq)
  also have "Suc (h + d - 1) = h + d" using assms by simp
  finally show ?thesis .
qed

lemma place_ok:
  assumes rh: "robinHood hasher bs" and c: "carryOk hasher bs nb pos"
    and d: "distance nb < length bs" and pos: "pos < length bs"
    and res: "occupied (bs ! pos) \<longrightarrow> distance (bs ! pos) \<le> distance nb"
  shows "robinHood hasher (bs[pos := nb])"
proof -
  let ?n = "length bs" and ?bs = "bs[pos := nb]"
  have npos: "0 < ?n" using pos by (cases bs) auto
  have proper: "properAt hasher ?bs p" if "p < ?n" for p
  proof (cases "p = pos")
    case True
    then show ?thesis using carryOkD(1-3)[OF c] d pos by (simp add: properAt_def)
  next
    case False
    have "properAt hasher bs p" using rh that unfolding robinHood_def by blast
    then show ?thesis using False unfolding properAt_def by auto
  qed
  have ch: "chainOk bs" using rh by (simp add: robinHood_def)
  have chain: "occupied (?bs ! p) \<and> distance (?bs ! (Suc p mod ?n)) \<le> distance (?bs ! p) + 1"
    if p: "p < ?n" and q: "occupied (?bs ! (Suc p mod ?n))" "0 < distance (?bs ! (Suc p mod ?n))" for p
  proof -
    let ?q = "Suc p mod ?n"
    have qn: "?q < ?n" using npos by simp
    show ?thesis
    proof (cases "?q = pos")
      case qpos: True
      show ?thesis
      proof (cases "p = pos")
        case True
        then show ?thesis using qpos pos carryOkD(1)[OF c] by simp
      next
        case False
        from q qpos pos have dpos: "0 < distance nb" by simp
        let ?prev = "(hash nb + distance nb - 1) mod ?n"
        have "Suc ?prev mod ?n = (hash nb + distance nb) mod ?n"
          using carry_prev[OF dpos npos] .
        also have "\<dots> = Suc p mod ?n" using carryOkD(3)[OF c] qpos by simp
        finally have "?prev = p" using pred_unique[of ?prev ?n p] npos p by simp
        with carryOkD(4,5)[OF c dpos] have "occupied (bs ! p)" "distance nb \<le> distance (bs ! p) + 1"
          by simp_all
        then show ?thesis using False qpos pos by simp
      qed
    next
      case qnpos: False
      then have q': "occupied (bs ! ?q)" "0 < distance (bs ! ?q)" using q by simp_all
      with ch p have old: "occupied (bs ! p)" "distance (bs ! ?q) \<le> distance (bs ! p) + 1"
        unfolding chainOk_def by blast+
      show ?thesis
      proof (cases "p = pos")
        case True
        with old res have "distance (bs ! ?q) \<le> distance nb + 1" by simp
        then show ?thesis using True qnpos pos carryOkD(1)[OF c] by simp
      next
        case False
        then show ?thesis using old qnpos by simp
      qed
    qed
  qed
  show ?thesis
    unfolding robinHood_def chainOk_def using proper chain by simp
qed

lemma displaceLoop_rh:
  assumes n: "n = 2 ^ ex" and eq: "displaceLoop bs msk nb pos = Some bs'"
  shows "msk = n - 1 \<longrightarrow> length bs = n \<longrightarrow> pos < n \<longrightarrow> (\<exists>e<n. \<not> occupied (bs ! e)) \<longrightarrow>
     robinHood hasher bs \<longrightarrow> carryOk hasher bs nb pos \<longrightarrow>
     robinHood hasher bs' \<and> storedKeys bs' = insert (key nb) (storedKeys bs)"
proof (rule displaceLoop.raw_induct[where P = "\<lambda>bs msk nb pos bs'.
     msk = n - 1 \<longrightarrow> length bs = n \<longrightarrow> pos < n \<longrightarrow> (\<exists>e<n. \<not> occupied (bs ! e)) \<longrightarrow>
     robinHood hasher bs \<longrightarrow> carryOk hasher bs nb pos \<longrightarrow>
     robinHood hasher bs' \<and> storedKeys bs' = insert (key nb) (storedKeys bs)", OF _ eq], goal_cases)
  case (1 f bs msk nb pos bs')
  show ?case
  proof (intro impI)
    assume msk: "msk = n - 1" and len: "length bs = n" and pos: "pos < n"
      and free: "\<exists>e<n. \<not> occupied (bs ! e)" and rh: "robinHood hasher bs"
      and c: "carryOk hasher bs nb pos"
    have npos: "0 < n" using n by simp
    have ch: "chainOk bs" using rh by (simp add: robinHood_def)
    from free obtain e where e: "e < length bs" "\<not> occupied (bs ! e)" using len by auto
    have "0 < distance nb \<longrightarrow> occupied (bs ! ((hash nb + distance nb - 1) mod length bs))
            \<and> distance nb \<le> distance (bs ! ((hash nb + distance nb - 1) mod length bs)) + 1"
      using carryOkD(4,5)[OF c] by blast
    from carried_lt[OF ch e this] have dlt: "distance nb < length bs" .
    have nx: "(pos + 1) AND msk = Suc pos mod n" using mask_mod[OF n, of "pos + 1"] msk by simp
    have nxn: "Suc pos mod n < n" using npos by simp
    have occ_nb: "occupied nb" using carryOkD(1)[OF c] .
    show "robinHood hasher bs' \<and> storedKeys bs' = insert (key nb) (storedKeys bs)"
    proof (cases "occupied (bs ! pos)")
      case False
      with 1(2) have bs': "bs' = bs[pos := nb]" by simp
      have "robinHood hasher (bs[pos := nb])"
        using place_ok[OF rh c dlt] pos len False by simp
      moreover have "storedKeys (bs[pos := nb]) = insert (key nb) (storedKeys bs)"
        using storedKeys_update[of pos bs nb] False pos len occ_nb by simp
      ultimately show ?thesis using bs' by simp
    next
      case occ: True
      let ?r = "bs ! pos"
      have rprop: "hash ?r = hasher (key ?r)" "(hash ?r + distance ?r) mod n = pos"
        using robinHoodD(1,3)[OF rh _ occ] pos len by simp_all
      show ?thesis
      proof (cases "distance nb > distance ?r")
        case True
        let ?bs = "bs[pos := nb]" and ?nb = "?r\<lparr>distance := distance ?r + 1\<rparr>"
        from True occ 1(2) nx have rec: "f ?bs msk ?nb (Suc pos mod n) = Some bs'" by simp
        have rh': "robinHood hasher ?bs" using place_ok[OF rh c dlt] pos len True by simp
        have free': "\<exists>e<n. \<not> occupied (?bs ! e)"
        proof -
          have "e \<noteq> pos" using e occ by auto
          then show ?thesis using e len by (intro exI[of _ e]) simp
        qed
        have c': "carryOk hasher ?bs ?nb (Suc pos mod n)"
        proof -
          have "(hash ?r + (distance ?r + 1)) mod n = Suc pos mod n"
            using rprop(2) by (metis Suc_eq_plus1 add_Suc_right mod_Suc_eq)
          moreover have "(hash ?r + (distance ?r + 1) - 1) mod n = pos" using rprop(2) by simp
          moreover have "distance ?r + 1 \<le> distance nb + 1" using True by simp
          ultimately show ?thesis using occ rprop(1) len pos occ_nb
            by (intro carryOkI) simp_all
        qed
        from 1(1)[OF rec] msk len nxn free' rh' c'
        have "robinHood hasher bs'" "storedKeys bs' = insert (key ?nb) (storedKeys ?bs)" by simp_all
        moreover have "storedKeys ?bs \<union> {key ?r} = insert (key nb) (storedKeys bs)"
          using storedKeys_update[of pos bs nb] occ pos len occ_nb by simp
        ultimately show ?thesis by auto
      next
        case False
        let ?nb = "nb\<lparr>distance := distance nb + 1\<rparr>"
        from False occ 1(2) nx have rec: "f bs msk ?nb (Suc pos mod n) = Some bs'" by simp
        have c': "carryOk hasher bs ?nb (Suc pos mod n)"
        proof -
          have p: "(hash nb + distance nb) mod n = pos" using carryOkD(3)[OF c] len by simp
          then have "(hash nb + (distance nb + 1)) mod n = Suc pos mod n"
            by (metis Suc_eq_plus1 add_Suc_right mod_Suc_eq)
          moreover have "(hash nb + (distance nb + 1) - 1) mod n = pos" using p by simp
          moreover have "distance nb + 1 \<le> distance ?r + 1" using False by simp
          ultimately show ?thesis using carryOkD(1,2)[OF c] occ len
            by (intro carryOkI) simp_all
        qed
        from 1(1)[OF rec] msk len nxn free rh c' show ?thesis by simp
      qed
    qed
  qed
qed

lemma probeLoop_rh:
  assumes n: "n = 2 ^ ex" and eq: "probeLoop bs msk h k pos d = Some r"
  shows "msk = n - 1 \<longrightarrow> length bs = n \<longrightarrow> h = hasher k \<longrightarrow> pos = (h + d) mod n \<longrightarrow>
     (0 < d \<longrightarrow> occupied (bs ! ((h + d - 1) mod n)) \<and> d \<le> distance (bs ! ((h + d - 1) mod n)) + 1) \<longrightarrow>
     (case r of KeyExists \<Rightarrow> k \<in> storedKeys bs
      | InsertAt pos' d' \<Rightarrow> carryOk hasher bs \<lparr>key = k, hash = h, distance = d', occupied = True\<rparr> pos')"
proof (rule probeLoop.raw_induct[where P = "\<lambda>bs msk h k pos d r.
     msk = n - 1 \<longrightarrow> length bs = n \<longrightarrow> h = hasher k \<longrightarrow> pos = (h + d) mod n \<longrightarrow>
     (0 < d \<longrightarrow> occupied (bs ! ((h + d - 1) mod n)) \<and> d \<le> distance (bs ! ((h + d - 1) mod n)) + 1) \<longrightarrow>
     (case r of KeyExists \<Rightarrow> k \<in> storedKeys bs
      | InsertAt pos' d' \<Rightarrow> carryOk hasher bs \<lparr>key = k, hash = h, distance = d', occupied = True\<rparr> pos')",
     OF _ eq], goal_cases)
  case (1 f bs msk h k pos d r)
  show ?case
  proof (intro impI)
    assume msk: "msk = n - 1" and len: "length bs = n" and h: "h = hasher k"
      and pos: "pos = (h + d) mod n"
      and prev: "0 < d \<longrightarrow> occupied (bs ! ((h + d - 1) mod n)) \<and> d \<le> distance (bs ! ((h + d - 1) mod n)) + 1"
    have npos: "0 < n" using n by simp
    have posn: "pos < n" using pos npos by simp
    have nx: "(pos + 1) AND msk = (h + (d + 1)) mod n"
      using mask_mod[OF n, of "pos + 1"] msk pos by (simp add: mod_Suc_eq)
    have here: "carryOk hasher bs \<lparr>key = k, hash = h, distance = d, occupied = True\<rparr> pos"
      using h pos prev len by (intro carryOkI) simp_all
    show "case r of KeyExists \<Rightarrow> k \<in> storedKeys bs
      | InsertAt pos' d' \<Rightarrow> carryOk hasher bs \<lparr>key = k, hash = h, distance = d', occupied = True\<rparr> pos'"
    proof (cases "occupied (bs ! pos)")
      case False
      with 1(2) here show ?thesis by auto
    next
      case occ: True
      show ?thesis
      proof (cases "hash (bs ! pos) = h \<and> key (bs ! pos) = k")
        case True
        with occ 1(2) have "r = KeyExists" by simp
        moreover have "k \<in> storedKeys bs" using True occ posn len by (auto simp: storedKeys_nth)
        ultimately show ?thesis by simp
      next
        case nomatch: False
        show ?thesis
        proof (cases "d > distance (bs ! pos)")
          case True
          with occ nomatch 1(2) here show ?thesis by auto
        next
          case False
          with occ nomatch 1(2) nx have rec: "f bs msk h k ((h + (d + 1)) mod n) (d + 1) = Some r"
            by (auto split: if_splits)
          have "(h + (d + 1) - 1) mod n = pos" using pos by simp
          with False occ have "occupied (bs ! ((h + (d + 1) - 1) mod n)) \<and>
              d + 1 \<le> distance (bs ! ((h + (d + 1) - 1) mod n)) + 1" by simp
          with 1(1)[OF rec] msk len h show ?thesis by simp
        qed
      qed
    qed
  qed
qed

subsection \<open>insertInternal keeps the invariant and stores the key\<close>

lemma insertAfterResize_rh:
  assumes inv: "rh_inv hasher s" and room: "m_size s < m_capacity s"
    and eq: "insertAfterResize hasher s k = Some (r, s')"
  shows "robinHood hasher (m_buckets s') \<and>
         storedKeys (m_buckets s') = insert k (storedKeys (m_buckets s))"
proof -
  let ?n = "m_capacity s" and ?bs = "m_buckets s"
  from inv obtain ex where n: "?n = 2 ^ ex" and len: "length ?bs = ?n"
    and msk: "m_mask s = ?n - 1" and sz: "m_size s = occupiedCount ?bs"
    and rh: "robinHood hasher ?bs"
    by (auto simp: rh_inv_def wf_table_def)
  have npos: "0 < ?n" using n by simp
  from room sz len obtain e where e: "e < ?n" "\<not> occupied (?bs ! e)"
    using free_slot_exists[of ?bs] by auto
  let ?pos = "hasher k AND m_mask s"
  have pos: "?pos = hasher k mod ?n" using mask_mod[OF n, of "hasher k"] msk by simp
  then have posn: "?pos < ?n" using npos by simp
  obtain j where j: "(?pos + j) mod ?n = e" using reach_slot[OF e(1)] by blast
  show ?thesis
  proof (cases "occupied (?bs ! ?pos)")
    case False
    let ?nb = "\<lparr>key = k, hash = hasher k, distance = 0, occupied = True\<rparr>"
    from eq False have s': "m_buckets s' = ?bs[?pos := ?nb]"
      by (auto simp: insertAfterResize_def Let_def)
    have c: "carryOk hasher ?bs ?nb ?pos" using pos len by (intro carryOkI) simp_all
    have "robinHood hasher (?bs[?pos := ?nb])"
      using place_ok[OF rh c] posn len npos False by simp
    moreover have "storedKeys (?bs[?pos := ?nb]) = insert k (storedKeys ?bs)"
      using storedKeys_update[of ?pos ?bs ?nb] False posn len by simp
    ultimately show ?thesis using s' by simp
  next
    case True
    from probeLoop_returns[OF n len e j posn, of "hasher k" k 0]
    obtain r0 where r0: "probeLoop ?bs (?n - 1) (hasher k) k ?pos 0 = Some r0"
      "(case r0 of KeyExists \<Rightarrow> True | InsertAt pos' d' \<Rightarrow> pos' < ?n \<and> (\<exists>j'. (pos' + j') mod ?n = e))"
      by blast
    have c0: "case r0 of KeyExists \<Rightarrow> k \<in> storedKeys ?bs
      | InsertAt pos' d' \<Rightarrow> carryOk hasher ?bs \<lparr>key = k, hash = hasher k, distance = d', occupied = True\<rparr> pos'"
      using probeLoop_rh[OF n r0(1), of hasher] len pos by simp
    show ?thesis
    proof (cases r0)
      case KeyExists
      with eq True r0 msk have "s' = s" by (simp add: insertAfterResize_def Let_def)
      moreover have "k \<in> storedKeys ?bs" using c0 KeyExists by simp
      ultimately show ?thesis using rh by auto
    next
      case (InsertAt pos' d')
      let ?nb = "\<lparr>key = k, hash = hasher k, distance = d', occupied = True\<rparr>"
      from r0(2) InsertAt have p': "pos' < ?n" by simp
      from c0 InsertAt have c: "carryOk hasher ?bs ?nb pos'" by simp
      from eq True r0 msk InsertAt obtain bs' where
        dl: "displaceLoop ?bs (?n - 1) ?nb pos' = Some bs'" and s': "m_buckets s' = bs'"
        by (auto simp: insertAfterResize_def Let_def split: option.splits)
      have free: "\<exists>e<?n. \<not> occupied (?bs ! e)" using e by blast
      from displaceLoop_rh[OF n dl, of hasher] len p' free rh c s' show ?thesis by simp
    qed
  qed
qed

lemma insertAfterResize_inv:
  assumes inv: "rh_inv hasher s" and room: "m_size s < m_capacity s"
  shows "\<exists>r s'. insertAfterResize hasher s k = Some (r, s') \<and> rh_inv hasher s' \<and>
           m_capacity s' = m_capacity s \<and> m_size s' = m_size s + (if r then 1 else 0) \<and>
           storedKeys (m_buckets s') = insert k (storedKeys (m_buckets s))"
proof -
  from inv have wf: "wf_table s" by (simp add: rh_inv_def)
  from insertAfterResize_returns[OF wf room, of hasher k]
  obtain r s' where r: "insertAfterResize hasher s k = Some (r, s')" "wf_table s'"
    "m_capacity s' = m_capacity s" "m_size s' = m_size s + (if r then 1 else 0)" by blast
  from insertAfterResize_rh[OF inv room r(1)] r show ?thesis
    by (auto simp: rh_inv_def)
qed

lemma storedKeys_Cons:
  "storedKeys (b # bs) = (if occupied b then {key b} else {}) \<union> storedKeys bs"
  by (auto simp: storedKeys_def)

lemma storedKeys_replicate [simp]: "storedKeys (replicate n (emptyBucket dk)) = {}"
  by (auto simp: storedKeys_def emptyBucket_def)

lemma rh_freshTable: "rh_inv hasher (freshTable dk (2 ^ e))"
  using wf_freshTable[of dk e]
  by (auto simp: rh_inv_def robinHood_def properAt_def chainOk_def freshTable_def emptyBucket_def)

lemma reinsertAll_rh:
  "rh_inv hasher s \<Longrightarrow> (m_size s + occupiedCount old) * 100 < m_capacity s * 75 + 100 \<Longrightarrow>
     \<exists>s'. reinsertAll (insertInternal hasher dk) old s = Some s' \<and> rh_inv hasher s' \<and>
          m_capacity s' = m_capacity s \<and> m_size s' \<le> m_size s + occupiedCount old \<and>
          storedKeys (m_buckets s') = storedKeys (m_buckets s) \<union> storedKeys old"
proof (induction old arbitrary: s)
  case Nil
  then show ?case by (simp add: storedKeys_def)
next
  case (Cons b old)
  show ?case
  proof (cases "occupied b")
    case False
    then have "occupiedCount (b # old) = occupiedCount old" by (simp add: occupiedCount_def)
    with Cons False show ?thesis by (simp add: storedKeys_Cons)
  next
    case True
    then have oc: "occupiedCount (b # old) = Suc (occupiedCount old)"
      by (simp add: occupiedCount_def)
    with Cons.prems have small: "m_size s * 100 < m_capacity s * 75" by simp
    then have nr: "\<not> shouldResize s" by (simp add: shouldResize_def MAX_LOAD_FACTOR_PERCENT_def)
    from small have room: "m_size s < m_capacity s" by simp
    from insertAfterResize_inv[OF Cons.prems(1) room, of "key b"]
    obtain r s1 where s1: "insertAfterResize hasher s (key b) = Some (r, s1)" "rh_inv hasher s1"
      "m_capacity s1 = m_capacity s" "m_size s1 = m_size s + (if r then 1 else 0)"
      "storedKeys (m_buckets s1) = insert (key b) (storedKeys (m_buckets s))" by blast
    have "(m_size s1 + occupiedCount old) * 100 < m_capacity s1 * 75 + 100"
      using Cons.prems(2) s1 oc by (auto split: if_splits)
    from Cons.IH[OF s1(2) this] obtain s' where
      "reinsertAll (insertInternal hasher dk) old s1 = Some s'" "rh_inv hasher s'"
      "m_capacity s' = m_capacity s1" "m_size s' \<le> m_size s1 + occupiedCount old"
      "storedKeys (m_buckets s') = storedKeys (m_buckets s1) \<union> storedKeys old" by blast
    then show ?thesis using True s1 oc insertInternal_no_resize[OF nr, of hasher dk "key b"]
      by (auto simp: storedKeys_Cons split: if_splits)
  qed
qed

text \<open>A rehash of any well-formed table gives a Robin Hood table with the same keys.\<close>

lemma rehash_rh:
  assumes wf: "wf_table s" and big: "2 * m_capacity s \<le> 2 ^ e"
  shows "\<exists>s'. reinsertAll (insertInternal hasher dk) (m_buckets s) (freshTable dk (2 ^ e)) = Some s' \<and>
           rh_inv hasher s' \<and> m_capacity s' = 2 ^ e \<and> m_size s' \<le> m_size s \<and>
           storedKeys (m_buckets s') = storedKeys (m_buckets s)"
proof -
  from wf have len: "length (m_buckets s) = m_capacity s"
    and sz: "m_size s = occupiedCount (m_buckets s)" by (auto simp: wf_table_def)
  let ?f = "freshTable dk (2 ^ e)"
  have "(m_size ?f + occupiedCount (m_buckets s)) * 100 < m_capacity ?f * 75 + 100"
    using occupiedCount_le[of "m_buckets s"] len big by (simp add: freshTable_def)
  from reinsertAll_rh[OF rh_freshTable this, of hasher dk] sz show ?thesis
    by (auto simp: freshTable_def)
qed

lemma resize_rh:
  assumes wf: "wf_table s"
  shows "\<exists>s'. resize hasher dk s = Some s' \<and> rh_inv hasher s' \<and>
           m_capacity s' = 2 * m_capacity s \<and> m_size s' \<le> m_size s \<and>
           storedKeys (m_buckets s') = storedKeys (m_buckets s)"
proof -
  from wf obtain e where e: "m_capacity s = 2 ^ e" by (auto simp: wf_table_def)
  have "2 * m_capacity s \<le> 2 ^ Suc e" using e by simp
  from rehash_rh[OF wf this, of hasher dk] e show ?thesis
    by (simp add: resize_def resizeWith_def)
qed

lemma insertInternal_rh:
  assumes inv: "rh_inv hasher s"
  shows "\<exists>r s'. insertInternal hasher dk s k = Some (r, s') \<and> rh_inv hasher s' \<and>
           storedKeys (m_buckets s') = insert k (storedKeys (m_buckets s))"
proof (cases "shouldResize s")
  case False
  then have "m_size s * 100 < m_capacity s * 75"
    by (simp add: shouldResize_def MAX_LOAD_FACTOR_PERCENT_def)
  then have room: "m_size s < m_capacity s" by simp
  from insertAfterResize_inv[OF inv room, of k] insertInternal_no_resize[OF False, of hasher dk k]
  show ?thesis by auto
next
  case True
  from inv have wf: "wf_table s" by (simp add: rh_inv_def)
  then obtain e where e: "m_capacity s = 2 ^ e" and len: "length (m_buckets s) = m_capacity s"
    and sz: "m_size s = occupiedCount (m_buckets s)" by (auto simp: wf_table_def)
  have cpos: "0 < m_capacity s" using e by simp
  have le: "m_size s \<le> m_capacity s" using sz len occupiedCount_le[of "m_buckets s"] by simp
  from resize_rh[OF wf, of hasher dk] obtain s1 where s1: "resize hasher dk s = Some s1"
    "rh_inv hasher s1" "m_capacity s1 = 2 * m_capacity s" "m_size s1 \<le> m_size s"
    "storedKeys (m_buckets s1) = storedKeys (m_buckets s)" by blast
  have room: "m_size s1 < m_capacity s1" using s1 le cpos by simp
  from insertAfterResize_inv[OF s1(2) room, of k]
  obtain r s' where s': "insertAfterResize hasher s1 k = Some (r, s')" "rh_inv hasher s'"
      "storedKeys (m_buckets s') = insert k (storedKeys (m_buckets s1))" by blast
  have "insertInternal hasher dk s k = Some (r, s')"
    using True s1(1) s'(1) by (subst insertInternal.simps) (simp add: resize_def)
  then show ?thesis using s1 s' by auto
qed

lemma reserve_rh:
  assumes inv: "rh_inv hasher s"
  shows "\<exists>s'. FastHashSet_reserve hasher dk s minCapacity = Some s' \<and> rh_inv hasher s' \<and>
           storedKeys (m_buckets s') = storedKeys (m_buckets s)"
proof (cases "minCapacity > m_capacity s")
  case False
  then show ?thesis using inv by (simp add: FastHashSet_reserve_def)
next
  case True
  from inv have wf: "wf_table s" by (simp add: rh_inv_def)
  then obtain e where e: "m_capacity s = 2 ^ e" by (auto simp: wf_table_def)
  obtain e' where e': "growPow2 1 minCapacity = Some (2 ^ e')" "minCapacity \<le> 2 ^ e'"
    using growPow2_1 by blast
  have gt: "m_capacity s < 2 ^ e'" using True e' by simp
  then have dbl: "2 * m_capacity s \<le> 2 ^ e'" using pow2_less_double[of e e'] e by simp
  from rehash_rh[OF wf dbl, of hasher dk] True e' gt show ?thesis
    by (auto simp: FastHashSet_reserve_def)
qed

lemma insertAll_rh:
  "rh_inv hasher s \<Longrightarrow>
     \<exists>s'. insertAll hasher dk s ks = Some s' \<and> rh_inv hasher s' \<and>
          storedKeys (m_buckets s') = storedKeys (m_buckets s) \<union> set ks"
proof (induction ks arbitrary: s)
  case Nil
  then show ?case by simp
next
  case (Cons k ks)
  from insertInternal_rh[OF Cons.prems, where dk = dk and k = k] obtain r s1 where
    s1: "insertInternal hasher dk s k = Some (r, s1)" "rh_inv hasher s1"
    "storedKeys (m_buckets s1) = insert k (storedKeys (m_buckets s))" by blast
  from Cons.IH[OF s1(2)] obtain s' where "insertAll hasher dk s1 ks = Some s'" "rh_inv hasher s'"
    "storedKeys (m_buckets s') = storedKeys (m_buckets s1) \<union> set ks" by blast
  then show ?case using s1 by (auto simp: FastHashSet_insert_def)
qed

lemma rh_default: "rh_inv hasher (FastHashSet_default dk)"
  using rh_freshTable[of hasher dk 5] by (simp add: FastHashSet_default_def INITIAL_CAPACITY_def)

lemma constructed_rh: "constructed hasher dk s \<Longrightarrow> rh_inv hasher s"
proof (induction rule: constructed.induct)
  case constructed_default
  show ?case by (rule rh_default)
next
  case (constructed_capacity c s)
  then show ?case using capacity_ctor_returns[of dk c] rh_freshTable[of hasher dk] by auto
next
  case (constructed_init init s)
  from reserve_rh[OF rh_default[of hasher dk], where dk = dk and minCapacity = "length init"] obtain s1 where
    s1: "FastHashSet_reserve hasher dk (FastHashSet_default dk) (length init) = Some s1"
    "rh_inv hasher s1" by blast
  with insertAll_rh[OF s1(2), where dk = dk and ks = init] constructed_init show ?case
    by (auto simp: FastHashSet_init_def)
next
  case (constructed_range randomAccess keys s)
  show ?case
  proof (cases randomAccess)
    case True
    from reserve_rh[OF rh_default[of hasher dk], where dk = dk and minCapacity = "length keys"] obtain s1 where
      s1: "FastHashSet_reserve hasher dk (FastHashSet_default dk) (length keys) = Some s1"
      "rh_inv hasher s1" by blast
    with insertAll_rh[OF s1(2), where dk = dk and ks = keys] constructed_range True show ?thesis
      by (auto simp: FastHashSet_range_def)
  next
    case False
    with insertAll_rh[OF rh_default[of hasher dk], where dk = dk and ks = keys] constructed_range show ?thesis
      by (auto simp: FastHashSet_range_def)
  qed
qed

subsection \<open>Round trip\<close>

text \<open>
  Claim C1: from a table returned by a constructor, any finite sequence of \<open>insert\<close> calls
  returns, and afterwards \<open>find( k )\<close> gives, for every key \<open>k\<close> of the sequence, a non-null
  pointer to an occupied bucket that holds \<open>k\<close> (for the set the entry is the key), so
  \<open>contains( k )\<close> is true.
\<close>

theorem insert_then_find:
  assumes "constructed hasher dk s"
  shows "\<exists>s'. insertAll hasher dk s ks = Some s' \<and>
           (\<forall>k\<in>set ks. \<exists>p. FastHashSet_find hasher s' k = Some (Some p) \<and>
                            p < FastHashSet_capacity_of s' \<and>
                            occupied (m_buckets s' ! p) \<and> key (m_buckets s' ! p) = k \<and>
                            FastHashSet_contains hasher s' k = Some True)"
proof -
  from insertAll_rh[OF constructed_rh[OF assms], where dk = dk and ks = ks] obtain s' where
    s': "insertAll hasher dk s ks = Some s'" "rh_inv hasher s'"
    "storedKeys (m_buckets s') = storedKeys (m_buckets s) \<union> set ks" by blast
  have "\<exists>p. FastHashSet_find hasher s' k = Some (Some p) \<and> p < FastHashSet_capacity_of s' \<and>
            occupied (m_buckets s' ! p) \<and> key (m_buckets s' ! p) = k \<and>
            FastHashSet_contains hasher s' k = Some True" if "k \<in> set ks" for k
  proof -
    from that s'(3) have "k \<in> storedKeys (m_buckets s')" by simp
    from find_stored[OF s'(2) this] show ?thesis
      by (auto simp: FastHashSet_contains_def FastHashSet_capacity_of_def)
  qed
  with s'(1) show ?thesis by blast
qed

theorem insert_then_find_witness:
  "constructed (\<lambda>k. k) 0 (FastHashSet_default (0::nat)) \<and>
   (\<exists>s'. insertAll (\<lambda>k. k) 0 (FastHashSet_default (0::nat)) [1, 33, 1] = Some s' \<and>
           (\<forall>k\<in>set [1, 33, 1]. \<exists>p. FastHashSet_find (\<lambda>k. k) s' k = Some (Some p) \<and>
                            p < FastHashSet_capacity_of s' \<and>
                            occupied (m_buckets s' ! p) \<and> key (m_buckets s' ! p) = k \<and>
                            FastHashSet_contains (\<lambda>k. k) s' k = Some True))"
  using insert_then_find[OF constructed_default, of "\<lambda>k. k" "0::nat" "[1, 33, 1]"]
    constructed_default[of "\<lambda>k. k" "0::nat"]
  by blast

section \<open>FastHashSet: what tryEmplace does to a table\<close>

text \<open>
  Claim C3 (every public mutator keeps each recorded distance equal to the actual probe
  distance): \<open>tryEmplace\<close> stores \<open>distance = 0\<close> whatever the number of probe steps.
  On the default table, after \<open>tryEmplace( 0 )\<close> and \<open>tryEmplace( 32 )\<close> with the identity hash,
  key 32 (ideal slot \<open>32 & 31 = 0\<close>) sits in bucket 1 with distance 0, one probe step
  from its ideal slot, and \<open>find( 32 )\<close> returns \<open>nullptr\<close>.
\<close>

theorem tryEmplace_breaks_distance:
  "map_option (\<lambda>s. (m_buckets s ! 1, hash (m_buckets s ! 1) AND m_mask s,
                     FastHashSet_find (\<lambda>k. k) s 32))
     (applyOps (\<lambda>k. k) 0 [TryEmplace 0, TryEmplace 32] (FastHashSet_default (0::nat)))
   = Some (\<lparr>key = 32, hash = 32, distance = 0, occupied = True\<rparr>, 0, Some None)"
  by code_simp

text \<open>
  Claim C5 (after \<open>erase( k )\<close> returns true, \<open>contains( k )\<close> is false), on a table reached
  through \<open>tryEmplace\<close>: capacity 8, identity hash, \<open>insert\<close> of 0..4, \<open>tryEmplace( 8 )\<close>,
  \<open>erase\<close> of 0..3, \<open>insert\<close> of 8, 12, 20, 28. Then \<open>erase( 8 )\<close> returns true, the size
  goes from 6 to 5, and \<open>contains( 8 )\<close> is still true.
\<close>

theorem erase_leaves_key_after_tryEmplace:
  "Option.bind
     (Option.bind (FastHashSet_capacity (0::nat) 8)
        (applyOps (\<lambda>k. k) 0
           [Insert 0, Insert 1, Insert 2, Insert 3, Insert 4, TryEmplace 8,
            Erase 0, Erase 1, Erase 2, Erase 3, Insert 8, Insert 12, Insert 20, Insert 28]))
     (\<lambda>s. Option.bind (FastHashSet_erase (\<lambda>k. k) 0 s 8)
            (\<lambda>r. map_option (\<lambda>c. (FastHashSet_size s, fst r, FastHashSet_size (snd r), c))
                    (FastHashSet_contains (\<lambda>k. k) (snd r) 8)))
   = Some (6, True, 5, True)"
  by code_simp

text \<open>
  Claim C6 (a resize keeps exactly the keys present, none dropped), on a table reached
  through \<open>tryEmplace\<close>: default table, identity hash, \<open>tryEmplace\<close> of 0, 32, 64, then
  \<open>insert( 64 )\<close>. Before \<open>reserve( 64 )\<close> the size is 4 and \<open>contains( 32 )\<close> is false; after
  it the size is 3 and \<open>contains( 32 )\<close> is true.
\<close>

theorem reserve_changes_membership_after_tryEmplace:
  "Option.bind (applyOps (\<lambda>k. k) 0 [TryEmplace 0, TryEmplace 32, TryEmplace 64, Insert 64]
                  (FastHashSet_default (0::nat)))
     (\<lambda>s. Option.bind (FastHashSet_contains (\<lambda>k. k) s 32)
        (\<lambda>before. Option.bind (FastHashSet_reserve (\<lambda>k. k) 0 s 64)
           (\<lambda>s'. map_option (\<lambda>after. (FastHashSet_size s, before, FastHashSet_size s', after))
              (FastHashSet_contains (\<lambda>k. k) s' 32))))
   = Some (4, False, 3, True)"
  by code_simp

section \<open>PerfectHashMap: the seed search\<close>

lemma findSeed_result:
  assumes eq: "findSeed seedMix tableSize occ buckets bucket seed0 = Some r"
  shows "tryPositions seedMix tableSize occ buckets (fst r) bucket [] = Some (snd r)"
proof (rule findSeed.raw_induct[where P = "\<lambda>seedMix tableSize occ buckets bucket seed0 r.
     tryPositions seedMix tableSize occ buckets (fst r) bucket [] = Some (snd r)", OF _ eq], goal_cases)
  case (1 f seedMix tableSize occ buckets bucket seed0 r)
  then show ?case by (auto split: option.splits)
qed

lemma findSeed_diverges:
  assumes never: "\<And>seed. tryPositions seedMix tableSize occ buckets seed bucket [] = None"
  shows "findSeed seedMix tableSize occ buckets bucket seed0 = None"
proof (cases "findSeed seedMix tableSize occ buckets bucket seed0")
  case None
  then show ?thesis .
next
  case (Some r)
  from findSeed_result[OF Some] never show ?thesis by simp
qed

text \<open>Two items with the same hash collide with each other under every seed.\<close>

lemma tryPositions_same_hash:
  "tryPositions seedMix 4 [False, False, False, False] [[(0, h), (1, h)], [], [], []] seed
     [(0, h), (1, h)] [] = None"
proof -
  let ?p = "unat (seedMix seed h 4) AND (4 - 1)"
  have "?p = unat (seedMix seed h 4) mod 2 ^ 2" using AND_pow2_mod[of "unat (seedMix seed h 4)" 2] by simp
  then have "?p < 4" by simp
  then consider "?p = 0" | "?p = 1" | "?p = 2" | "?p = 3" by linarith
  then show ?thesis by cases (simp_all add: Let_def)
qed

text \<open>
  Claim C9 (the construction terminates for every duplicate-free batch): two distinct keys
  with the same hash value share a home bucket and get the same candidate slot from
  \<open>seedMix\<close> for every seed, so every seed is rejected by the intra-bucket check and the
  seed loop never exits, whatever \<open>seedMix\<close> is. Here: keys 1 and 2, both hashed to 0
  (32-bit hash).
\<close>

theorem construction_diverges_on_equal_hashes:
  "PerfectHashMap_ctor (\<lambda>k. 0 :: 32 word) seedMix (0, 0) [(1::nat, 10::nat), (2, 20)] = None"
proof -
  have g: "growPow2 (Suc 0) (Suc (Suc 0)) = Some 2"
    by (subst growPow2.simps, simp, subst growPow2.simps, simp)
  have b: "fillBuckets (\<lambda>k. 0 :: 32 word) 4 [(1::nat, 10::nat), (2, 20)]
             = [[(0, 0), (1, 0)], [], [], []]"
    by (simp add: fillBuckets_def upt_rec numeral_eq_Suc)
  have i: "sortBySize (indexedBuckets 4 [[(0::nat, 0 :: 32 word), (1, 0)], [], [], []])
             = [(0, [(0, 0), (1, 0)])]"
    by (simp add: sortBySize_def indexedBuckets_def upt_rec numeral_eq_Suc)
  have r: "replicate 4 False = [False, False, False, False]" by (simp add: numeral_eq_Suc)
  have f: "findSeed seedMix 4 (replicate 4 False) [[(0::nat, 0 :: 32 word), (1, 0)], [], [], []]
             [(0, 0), (1, 0)] 1 = None"
    unfolding r by (rule findSeed_diverges) (rule tryPositions_same_hash)
  show ?thesis
    using g b i f by (simp add: PerfectHashMap_ctor_def Let_def)
qed

subsection \<open>The signed seed\<close>

lemma sint_sentinel:
  fixes i :: nat
  assumes "i + 1 < 2 ^ (LENGTH('w::len) - 1)"
  shows "sint (- (word_of_nat (i + 1)) :: 'w word) = - int (i + 1)"
proof -
  let ?n = "LENGTH('w) - 1"
  have a: "int (i + 1) < 2 ^ ?n" using assms by (metis of_nat_less_iff of_nat_numeral of_nat_power)
  have "sint (word_of_nat (i + 1) :: 'w word) = signed_take_bit ?n (int (i + 1))"
    using sint_sbintrunc'[of "int (i + 1)", where 'a = 'w] by simp
  also have "\<dots> = int (i + 1)" using a by (intro signed_take_bit_int_eq_self) auto
  finally have s: "sint (word_of_nat (i + 1) :: 'w word) = int (i + 1)" .
  have "sint (- (word_of_nat (i + 1)) :: 'w word) = signed_take_bit ?n (- int (i + 1))"
    by (simp only: sint_word_minus s)
  also have "\<dots> = - int (i + 1)" using a by (intro signed_take_bit_int_eq_self) auto
  finally show ?thesis .
qed

subsection \<open>Bucketing\<close>

lemma fillBuckets_prefix:
  fixes hasher :: "'k \<Rightarrow> 'w::len word" and items :: "('k \<times> 'v) list"
  assumes ts: "ts = 2 ^ e" and n: "n \<le> length items"
  defines "step \<equiv> \<lambda>buckets i.
              let h = hasher (fst (items ! i));
                  bucketIndex = unat h AND (ts - 1)
              in buckets[bucketIndex := buckets ! bucketIndex @ [(i, h)]]"
  shows "length (foldl step (replicate ts []) [0..<n]) = ts \<and>
         (\<forall>i<ts. set (foldl step (replicate ts []) [0..<n] ! i)
                  = {(idx, hasher (fst (items ! idx))) | idx.
                       idx < n \<and> unat (hasher (fst (items ! idx))) AND (ts - 1) = i})"
  using n
proof (induction n)
  case 0
  show ?case by simp
next
  case (Suc n)
  let ?B = "foldl step (replicate ts []) [0..<n]"
  let ?h = "hasher (fst (items ! n))"
  let ?b = "unat ?h AND (ts - 1)"
  from Suc have IH: "length ?B = ts"
    "\<And>i. i < ts \<Longrightarrow> set (?B ! i) = {(idx, hasher (fst (items ! idx))) | idx.
                       idx < n \<and> unat (hasher (fst (items ! idx))) AND (ts - 1) = i}"
    by auto
  have b: "?b < ts" using mask_mod[OF ts, of "unat ?h"] ts by simp
  have eq: "foldl step (replicate ts []) [0..<Suc n] = ?B[?b := ?B ! ?b @ [(n, ?h)]]"
    by (simp add: step_def Let_def)
  show ?case
  proof (intro conjI allI impI)
    show "length (foldl step (replicate ts []) [0..<Suc n]) = ts" using eq IH(1) by simp
  next
    fix i assume i: "i < ts"
    show "set (foldl step (replicate ts []) [0..<Suc n] ! i)
            = {(idx, hasher (fst (items ! idx))) | idx.
                 idx < Suc n \<and> unat (hasher (fst (items ! idx))) AND (ts - 1) = i}"
    proof (cases "i = ?b")
      case True
      then show ?thesis unfolding eq using IH(1) IH(2)[OF i] b
        by (auto simp: less_Suc_eq)
    next
      case False
      then show ?thesis unfolding eq using IH(1) IH(2)[OF i] b
        by (auto simp: less_Suc_eq)
    qed
  qed
qed

lemma fillBuckets_props:
  assumes ts: "ts = 2 ^ e"
  shows "length (fillBuckets hasher ts items) = ts"
    and "i < ts \<Longrightarrow> set (fillBuckets hasher ts items ! i)
           = {(idx, hasher (fst (items ! idx))) | idx.
                idx < length items \<and> unat (hasher (fst (items ! idx))) AND (ts - 1) = i}"
  using fillBuckets_prefix[OF ts order_refl, where items = items and hasher = hasher]
  by (auto simp: fillBuckets_def)

subsection \<open>The order of processing\<close>

lemma distinct_fst_sort_key:
  "distinct (map fst (sort_key f xs)) = distinct (map fst xs)"
proof (induction xs)
  case Nil
  show ?case by simp
next
  case (Cons x xs)
  have ins: "distinct (map fst (insort_key f y ys)) = (fst y \<notin> fst ` set ys \<and> distinct (map fst ys))"
    for y :: "'a \<times> 'b" and ys
    by (induction ys) (auto simp: set_insort_key)
  show ?case using Cons by (simp add: ins)
qed

lemma sorted_buckets_props:
  "set (sortBySize (indexedBuckets ts buckets)) = {(i, buckets ! i) | i. i < ts \<and> buckets ! i \<noteq> []}"
  "distinct (map fst (sortBySize (indexedBuckets ts buckets)))"
proof -
  show "set (sortBySize (indexedBuckets ts buckets)) = {(i, buckets ! i) | i. i < ts \<and> buckets ! i \<noteq> []}"
    by (auto simp: sortBySize_def indexedBuckets_def)
  have "map fst (indexedBuckets ts buckets) = filter (\<lambda>i. buckets ! i \<noteq> []) [0..<ts]"
    by (simp add: indexedBuckets_def comp_def)
  then show "distinct (map fst (sortBySize (indexedBuckets ts buckets)))"
    by (simp add: sortBySize_def distinct_fst_sort_key)
qed

subsection \<open>One seed attempt and the placement\<close>

lemma tryPositions_props:
  "tryPositions seedMix ts occ buckets seed rest acc = Some positions \<Longrightarrow>
     \<exists>new. positions = acc @ new \<and> length new = length rest \<and>
       (\<forall>t<length rest. new ! t = unat (seedMix seed (snd (rest ! t)) ts) AND (ts - 1) \<and>
                        \<not> occ ! (new ! t) \<and> length (buckets ! (new ! t)) \<noteq> 1) \<and>
       (distinct acc \<longrightarrow> distinct positions)"
proof (induction rest arbitrary: acc)
  case Nil
  then show ?case by simp
next
  case (Cons it rest)
  obtain itemIndex hashValue where it: "it = (itemIndex, hashValue)" by (cases it)
  let ?pos = "unat (seedMix seed hashValue ts) AND (ts - 1)"
  from Cons.prems it have ok: "\<not> occ ! ?pos" "length (buckets ! ?pos) \<noteq> 1" "?pos \<notin> set acc"
    and rec: "tryPositions seedMix ts occ buckets seed rest (acc @ [?pos]) = Some positions"
    by (auto simp: Let_def split: if_splits)
  from Cons.IH[OF rec] obtain new where new: "positions = (acc @ [?pos]) @ new"
    "length new = length rest"
    "\<forall>t<length rest. new ! t = unat (seedMix seed (snd (rest ! t)) ts) AND (ts - 1) \<and>
                        \<not> occ ! (new ! t) \<and> length (buckets ! (new ! t)) \<noteq> 1"
    "distinct (acc @ [?pos]) \<longrightarrow> distinct positions" by blast
  define new' where "new' = ?pos # new"
  have A: "\<forall>t<length (it # rest). new' ! t = unat (seedMix seed (snd ((it # rest) ! t)) ts) AND (ts - 1) \<and>
                        \<not> occ ! (new' ! t) \<and> length (buckets ! (new' ! t)) \<noteq> 1"
  proof (intro allI impI)
    fix t assume "t < length (it # rest)"
    then show "new' ! t = unat (seedMix seed (snd ((it # rest) ! t)) ts) AND (ts - 1) \<and>
                        \<not> occ ! (new' ! t) \<and> length (buckets ! (new' ! t)) \<noteq> 1"
      using ok new(3) it unfolding new'_def by (cases t) auto
  qed
  have B: "positions = acc @ new'" using new(1) by (simp add: new'_def)
  have C: "length new' = length (it # rest)" using new(2) by (simp add: new'_def)
  have D: "distinct acc \<longrightarrow> distinct positions" using new(4) ok(3) by simp
  from A B C D show ?case by blast
qed

lemma placeItems_prefix:
  fixes items :: "('k \<times> 'v) list" and bucket :: "(nat \<times> 'w::len word) list"
    and m :: "('k, 'v, 'w word) PerfectHashMap"
  assumes d: "distinct positions" and len: "length positions = length bucket"
    and n: "n \<le> length bucket"
    and inb: "\<forall>t<length bucket. positions ! t < length (m_table m)"
    and same: "length (m_occupied m) = length (m_table m)"
  defines "step \<equiv> \<lambda>m i. let itemIndex = fst (bucket ! i); pos = positions ! i
                   in m\<lparr>m_table := (m_table m)[pos := items ! itemIndex],
                        m_occupied := (m_occupied m)[pos := True]\<rparr>"
  shows "m_seeds (foldl step m [0..<n]) = m_seeds m \<and>
         m_itemCount (foldl step m [0..<n]) = m_itemCount m \<and>
         length (m_table (foldl step m [0..<n])) = length (m_table m) \<and>
         length (m_occupied (foldl step m [0..<n])) = length (m_occupied m) \<and>
         (\<forall>p. p \<notin> set (take n positions) \<longrightarrow>
              m_table (foldl step m [0..<n]) ! p = m_table m ! p \<and>
              m_occupied (foldl step m [0..<n]) ! p = m_occupied m ! p) \<and>
         (\<forall>t<n. m_table (foldl step m [0..<n]) ! (positions ! t) = items ! fst (bucket ! t) \<and>
                 m_occupied (foldl step m [0..<n]) ! (positions ! t))"
  using n
proof (induction n)
  case 0
  show ?case by simp
next
  case (Suc n)
  let ?M = "foldl step m [0..<n]"
  from Suc have IH: "m_seeds ?M = m_seeds m" "m_itemCount ?M = m_itemCount m"
    "length (m_table ?M) = length (m_table m)" "length (m_occupied ?M) = length (m_occupied m)"
    "\<And>p. p \<notin> set (take n positions) \<Longrightarrow> m_table ?M ! p = m_table m ! p \<and> m_occupied ?M ! p = m_occupied m ! p"
    "\<And>t. t < n \<Longrightarrow> m_table ?M ! (positions ! t) = items ! fst (bucket ! t) \<and> m_occupied ?M ! (positions ! t)"
    by auto
  have nlt: "n < length positions" using Suc.prems len by simp
  let ?pos = "positions ! n"
  have eq: "foldl step m [0..<Suc n] = ?M\<lparr>m_table := (m_table ?M)[?pos := items ! fst (bucket ! n)],
                        m_occupied := (m_occupied ?M)[?pos := True]\<rparr>"
    by (simp add: step_def Let_def)
  have posb: "?pos < length (m_table m)" using inb nlt len by simp
  have tk: "take (Suc n) positions = take n positions @ [?pos]"
    using nlt by (simp add: take_Suc_conv_app_nth)
  have neq: "positions ! t \<noteq> ?pos" if "t < n" for t
    using d nlt that by (simp add: nth_eq_iff_index_eq)
  show ?case unfolding eq
  proof (intro conjI allI impI)
    fix p assume "p \<notin> set (take (Suc n) positions)"
    then have p: "p \<notin> set (take n positions)" "p \<noteq> ?pos" using tk by auto
    show "m_table (?M\<lparr>m_table := (m_table ?M)[?pos := items ! fst (bucket ! n)],
                        m_occupied := (m_occupied ?M)[?pos := True]\<rparr>) ! p = m_table m ! p"
      using IH(5)[OF p(1)] p(2) by simp
    show "m_occupied (?M\<lparr>m_table := (m_table ?M)[?pos := items ! fst (bucket ! n)],
                        m_occupied := (m_occupied ?M)[?pos := True]\<rparr>) ! p = m_occupied m ! p"
      using IH(5)[OF p(1)] p(2) by simp
  next
    fix t assume t: "t < Suc n"
    show "m_table (?M\<lparr>m_table := (m_table ?M)[?pos := items ! fst (bucket ! n)],
                        m_occupied := (m_occupied ?M)[?pos := True]\<rparr>) ! (positions ! t)
            = items ! fst (bucket ! t)"
    proof (cases "t = n")
      case True then show ?thesis using posb IH(3) by simp
    next
      case False
      with t have "t < n" by simp
      from IH(6)[OF this] neq[OF this] show ?thesis by simp
    qed
    show "m_occupied (?M\<lparr>m_table := (m_table ?M)[?pos := items ! fst (bucket ! n)],
                        m_occupied := (m_occupied ?M)[?pos := True]\<rparr>) ! (positions ! t)"
    proof (cases "t = n")
      case True then show ?thesis using posb IH(4) same by simp
    next
      case False
      with t have "t < n" by simp
      from IH(6)[OF this] neq[OF this] show ?thesis by simp
    qed
  qed (simp_all add: IH)
qed

lemma placeItems_props:
  fixes items :: "('k \<times> 'v) list" and bucket :: "(nat \<times> 'w::len word) list"
    and m :: "('k, 'v, 'w word) PerfectHashMap"
  assumes d: "distinct positions" and len: "length positions = length bucket"
    and inb: "\<forall>t<length bucket. positions ! t < length (m_table m)"
    and same: "length (m_occupied m) = length (m_table m)"
  shows "m_seeds (placeItems items bucket positions m) = m_seeds m"
    and "length (m_table (placeItems items bucket positions m)) = length (m_table m)"
    and "length (m_occupied (placeItems items bucket positions m)) = length (m_occupied m)"
    and "p \<notin> set positions \<Longrightarrow>
           m_table (placeItems items bucket positions m) ! p = m_table m ! p \<and>
           m_occupied (placeItems items bucket positions m) ! p = m_occupied m ! p"
    and "t < length bucket \<Longrightarrow>
           m_table (placeItems items bucket positions m) ! (positions ! t) = items ! fst (bucket ! t) \<and>
           m_occupied (placeItems items bucket positions m) ! (positions ! t)"
  using placeItems_prefix[OF d len order_refl inb same, where items = items] len
  by (auto simp: placeItems_def)

subsection \<open>The placement loop\<close>

lemma chdInvD:
  assumes "chdInv seedMix ts buckets items D m"
  shows "length (m_table m) = ts" "length (m_seeds m) = ts" "length (m_occupied m) = ts"
    and "\<And>i x. i \<in> D \<Longrightarrow> x \<in> set (buckets ! i) \<Longrightarrow>
          slotOf seedMix ts buckets (m_seeds m) i (snd x) < ts \<and>
          m_occupied m ! slotOf seedMix ts buckets (m_seeds m) i (snd x) \<and>
          m_table m ! slotOf seedMix ts buckets (m_seeds m) i (snd x) = items ! fst x"
    and "\<And>i. i \<in> D \<Longrightarrow> length (buckets ! i) = 1 \<Longrightarrow> m_seeds m ! i = - word_of_nat (i + 1)"
    and "\<And>p. p < ts \<Longrightarrow> m_occupied m ! p \<Longrightarrow> \<exists>idx<length items. m_table m ! p = items ! idx"
    and "\<And>p. p < ts \<Longrightarrow> m_occupied m ! p \<Longrightarrow> length (buckets ! p) = 1 \<Longrightarrow> p \<in> D"
    and "\<And>i. i < ts \<Longrightarrow> i \<notin> D \<Longrightarrow> m_seeds m ! i = 0"
  using assms unfolding chdInv_def by blast+

lemma chdInvI:
  assumes "length (m_table m) = ts" "length (m_seeds m) = ts" "length (m_occupied m) = ts"
    and "\<And>i x. i \<in> D \<Longrightarrow> x \<in> set (buckets ! i) \<Longrightarrow>
          slotOf seedMix ts buckets (m_seeds m) i (snd x) < ts \<and>
          m_occupied m ! slotOf seedMix ts buckets (m_seeds m) i (snd x) \<and>
          m_table m ! slotOf seedMix ts buckets (m_seeds m) i (snd x) = items ! fst x"
    and "\<And>i. i \<in> D \<Longrightarrow> length (buckets ! i) = 1 \<Longrightarrow> m_seeds m ! i = - word_of_nat (i + 1)"
    and "\<And>p. p < ts \<Longrightarrow> m_occupied m ! p \<Longrightarrow> \<exists>idx<length items. m_table m ! p = items ! idx"
    and "\<And>p. p < ts \<Longrightarrow> m_occupied m ! p \<Longrightarrow> length (buckets ! p) = 1 \<Longrightarrow> p \<in> D"
    and "\<And>i. i < ts \<Longrightarrow> i \<notin> D \<Longrightarrow> m_seeds m ! i = 0"
  shows "chdInv seedMix ts buckets items D m"
  using assms unfolding chdInv_def by blast

lemma slotOf_seeds_cong:
  "seeds' ! i = seeds ! i \<Longrightarrow> slotOf seedMix ts buckets seeds' i h = slotOf seedMix ts buckets seeds i h"
  by (simp add: slotOf_def)

lemma single_step:
  fixes m :: "('k, 'v, 'w::len word) PerfectHashMap"
  assumes inv: "chdInv seedMix ts buckets items D m" and i: "i < ts" "i \<notin> D"
    and b: "buckets ! i = [x]" and x: "fst x < length items"
  shows "chdInv seedMix ts buckets items (insert i D)
           (m\<lparr>m_table := (m_table m)[i := items ! fst x],
              m_occupied := (m_occupied m)[i := True],
              m_seeds := (m_seeds m)[i := - word_of_nat (i + 1)]\<rparr>)"
    (is "chdInv _ _ _ _ _ ?m'")
proof (rule chdInvI)
  note L = chdInvD(1-3)[OF inv]
  show "length (m_table ?m') = ts" "length (m_seeds ?m') = ts" "length (m_occupied ?m') = ts"
    using L by simp_all
  have single: "length (buckets ! i) = 1" using b by simp
  show "slotOf seedMix ts buckets (m_seeds ?m') j (snd y) < ts \<and>
        m_occupied ?m' ! slotOf seedMix ts buckets (m_seeds ?m') j (snd y) \<and>
        m_table ?m' ! slotOf seedMix ts buckets (m_seeds ?m') j (snd y) = items ! fst y"
    if j: "j \<in> insert i D" and y: "y \<in> set (buckets ! j)" for j y
  proof (cases "j = i")
    case True
    then have "y = x" using y b by simp
    moreover have "slotOf seedMix ts buckets (m_seeds ?m') i (snd y) = i"
      using single by (simp add: slotOf_def)
    ultimately show ?thesis using True i L by simp
  next
    case False
    with j have jD: "j \<in> D" by simp
    let ?p = "slotOf seedMix ts buckets (m_seeds m) j (snd y)"
    have sl: "slotOf seedMix ts buckets (m_seeds ?m') j (snd y) = ?p"
      using False by (intro slotOf_seeds_cong) simp
    from chdInvD(4)[OF inv jD y] have p: "?p < ts" "m_occupied m ! ?p" "m_table m ! ?p = items ! fst y"
      by blast+
    have "?p \<noteq> i" using chdInvD(7)[OF inv p(1,2)] single i(2) by auto
    then show ?thesis unfolding sl using p by simp
  qed
  show "m_seeds ?m' ! j = - word_of_nat (j + 1)" if "j \<in> insert i D" "length (buckets ! j) = 1" for j
    using that chdInvD(5)[OF inv, of j] i L by (cases "j = i") auto
  show "\<exists>idx<length items. m_table ?m' ! p = items ! idx" if "p < ts" "m_occupied ?m' ! p" for p
  proof (cases "p = i")
    case True
    then show ?thesis using x i L by auto
  next
    case False
    then show ?thesis using that chdInvD(6)[OF inv, of p] by simp
  qed
  show "p \<in> insert i D" if "p < ts" "m_occupied ?m' ! p" "length (buckets ! p) = 1" for p
    using that chdInvD(7)[OF inv, of p] by (cases "p = i") auto
  show "m_seeds ?m' ! j = 0" if "j < ts" "j \<notin> insert i D" for j
    using that chdInvD(8)[OF inv, of j] by simp
qed

lemma multi_step:
  fixes m :: "('k, 'v, 'w::len word) PerfectHashMap"
  assumes inv: "chdInv seedMix ts buckets items D m" and ts: "ts = 2 ^ e"
    and i: "i < ts" "i \<notin> D" and multi: "length (buckets ! i) \<noteq> 1"
    and mem: "\<And>x. x \<in> set (buckets ! i) \<Longrightarrow> fst x < length items"
    and tp: "tryPositions seedMix ts (m_occupied m) buckets seed (buckets ! i) [] = Some positions"
  shows "chdInv seedMix ts buckets items (insert i D)
           ((placeItems items (buckets ! i) positions m)
              \<lparr>m_seeds := (m_seeds (placeItems items (buckets ! i) positions m))[i := seed]\<rparr>)"
    (is "chdInv _ _ _ _ _ ?m'")
proof -
  let ?bucket = "buckets ! i"
  let ?m1 = "placeItems items ?bucket positions m"
  note L = chdInvD(1-3)[OF inv]
  from tryPositions_props[OF tp] have len: "length positions = length ?bucket"
    and pos: "\<And>t. t < length ?bucket \<Longrightarrow>
        positions ! t = unat (seedMix seed (snd (?bucket ! t)) ts) AND (ts - 1) \<and>
        \<not> m_occupied m ! (positions ! t) \<and> length (buckets ! (positions ! t)) \<noteq> 1"
    and dist: "distinct positions" by auto
  have inr: "positions ! t < ts" if "t < length ?bucket" for t
    using pos[OF that] mask_mod[OF ts, of "unat (seedMix seed (snd (?bucket ! t)) ts)"] ts by simp
  have inb: "\<forall>t<length ?bucket. positions ! t < length (m_table m)" using inr L by simp
  have same: "length (m_occupied m) = length (m_table m)" using L by simp
  note P = placeItems_props[OF dist len inb same, where items = items]
  have free: "\<not> m_occupied m ! p" "length (buckets ! p) \<noteq> 1" "p < ts" if "p \<in> set positions" for p
  proof -
    from that obtain t where t: "t < length positions" "positions ! t = p"
      by (auto simp: in_set_conv_nth)
    then show "\<not> m_occupied m ! p" "length (buckets ! p) \<noteq> 1" "p < ts"
      using pos[of t] inr[of t] len by auto
  qed
  have seeds': "m_seeds ?m' = (m_seeds m)[i := seed]" using P(1) by simp
  have tab': "m_table ?m' = m_table ?m1" "m_occupied ?m' = m_occupied ?m1" by simp_all
  show ?thesis
  proof (rule chdInvI)
    show "length (m_table ?m') = ts" "length (m_seeds ?m') = ts" "length (m_occupied ?m') = ts"
      using L P(2,3) seeds' by simp_all
    show "slotOf seedMix ts buckets (m_seeds ?m') j (snd y) < ts \<and>
          m_occupied ?m' ! slotOf seedMix ts buckets (m_seeds ?m') j (snd y) \<and>
          m_table ?m' ! slotOf seedMix ts buckets (m_seeds ?m') j (snd y) = items ! fst y"
      if j: "j \<in> insert i D" and y: "y \<in> set (buckets ! j)" for j y
    proof (cases "j = i")
      case True
      from y True obtain t where t: "t < length ?bucket" "?bucket ! t = y"
        by (auto simp: in_set_conv_nth)
      have "slotOf seedMix ts buckets (m_seeds ?m') i (snd y) = positions ! t"
        using multi pos[OF t(1)] t(2) i(1) L(2) seeds' by (simp add: slotOf_def)
      then show ?thesis using True P(5)[OF t(1)] t(2) inr[OF t(1)] tab' by simp
    next
      case False
      with j have jD: "j \<in> D" by simp
      let ?p = "slotOf seedMix ts buckets (m_seeds m) j (snd y)"
      have sl: "slotOf seedMix ts buckets (m_seeds ?m') j (snd y) = ?p"
        using False seeds' by (intro slotOf_seeds_cong) simp
      from chdInvD(4)[OF inv jD y] have p: "?p < ts" "m_occupied m ! ?p" "m_table m ! ?p = items ! fst y"
        by blast+
      have "?p \<notin> set positions" using free(1) p(2) by blast
      from P(4)[OF this] p show ?thesis unfolding sl tab' by simp
    qed
    show "m_seeds ?m' ! j = - word_of_nat (j + 1)" if "j \<in> insert i D" "length (buckets ! j) = 1" for j
      using that chdInvD(5)[OF inv, of j] multi seeds' by (cases "j = i") auto
    show "\<exists>idx<length items. m_table ?m' ! p = items ! idx" if p: "p < ts" "m_occupied ?m' ! p" for p
    proof (cases "p \<in> set positions")
      case True
      then obtain t where t: "t < length ?bucket" "positions ! t = p"
        using len by (auto simp: in_set_conv_nth)
      have "fst (?bucket ! t) < length items" using mem[of "?bucket ! t"] t(1) by simp
      then show ?thesis using P(5)[OF t(1)] t(2) tab' by auto
    next
      case False
      from P(4)[OF this] p chdInvD(6)[OF inv, of p] show ?thesis unfolding tab' by simp
    qed
    show "p \<in> insert i D" if p: "p < ts" "m_occupied ?m' ! p" "length (buckets ! p) = 1" for p
    proof (cases "p \<in> set positions")
      case True
      with free(2) p(3) show ?thesis by blast
    next
      case False
      from P(4)[OF this] p chdInvD(7)[OF inv, of p] show ?thesis unfolding tab' by simp
    qed
    show "m_seeds ?m' ! j = 0" if "j < ts" "j \<notin> insert i D" for j
      using that chdInvD(8)[OF inv, of j] seeds' by simp
  qed
qed

lemma processBuckets_inv:
  fixes m :: "('k, 'v, 'w::len word) PerfectHashMap"
  assumes ts: "ts = 2 ^ e"
    and mem: "\<And>i x. i < ts \<Longrightarrow> x \<in> set (buckets ! i) \<Longrightarrow>
                fst x < length items \<and> unat (snd x) AND (ts - 1) = i"
  shows "processBuckets seedMix ts buckets items ibs m = Some m' \<Longrightarrow>
     chdInv seedMix ts buckets items D m \<Longrightarrow> distinct (map fst ibs) \<Longrightarrow>
     (\<forall>ib\<in>set ibs. fst ib < ts \<and> snd ib = buckets ! fst ib \<and> snd ib \<noteq> [] \<and> fst ib \<notin> D) \<Longrightarrow>
     chdInv seedMix ts buckets items (D \<union> fst ` set ibs) m'"
proof (induction ibs arbitrary: m D)
  case Nil
  then show ?case by simp
next
  case (Cons ib ibs)
  obtain i bucket where ib: "ib = (i, bucket)" by (cases ib)
  from Cons.prems(4) ib have i: "i < ts" "bucket = buckets ! i" "bucket \<noteq> []" "i \<notin> D" by auto
  have rest: "\<forall>ib\<in>set ibs. fst ib < ts \<and> snd ib = buckets ! fst ib \<and> snd ib \<noteq> [] \<and> fst ib \<notin> insert i D"
    using Cons.prems(3,4) ib by auto
  have dist: "distinct (map fst ibs)" using Cons.prems(3) by simp
  have un: "insert i D \<union> fst ` set ibs = D \<union> fst ` set (ib # ibs)" using ib by auto
  show ?case
  proof (cases "length bucket = 1")
    case True
    then obtain x where x: "bucket = [x]" by (cases bucket) auto
    let ?m1 = "m\<lparr>m_table := (m_table m)[i := items ! fst x],
                 m_occupied := (m_occupied m)[i := True],
                 m_seeds := (m_seeds m)[i := - word_of_nat (i + 1)]\<rparr>"
    from Cons.prems(1) ib True x
    have rec: "processBuckets seedMix ts buckets items ibs ?m1 = Some m'" by (simp add: Let_def)
    have "x \<in> set (buckets ! i)" using i(2) x by (metis list.set_intros(1))
    then have "fst x < length items" using mem[OF i(1), of x] by blast
    then have "chdInv seedMix ts buckets items (insert i D) ?m1"
      using single_step[OF Cons.prems(2) i(1) i(4)] i(2) x by simp
    from Cons.IH[OF rec this dist rest] un show ?thesis by simp
  next
    case False
    from Cons.prems(1) ib False obtain seed positions where
      fs: "findSeed seedMix ts (m_occupied m) buckets bucket 1 = Some (seed, positions)"
      and rec: "processBuckets seedMix ts buckets items ibs
           ((placeItems items bucket positions m)\<lparr>m_seeds :=
              (m_seeds (placeItems items bucket positions m))[unat (snd (bucket ! 0)) AND (ts - 1) := seed]\<rparr>) = Some m'"
      by (auto simp: Let_def split: option.splits)
    have "bucket ! 0 \<in> set bucket" using i(3) by (cases bucket) auto
    then have home: "unat (snd (bucket ! 0)) AND (ts - 1) = i" using mem[OF i(1)] i(2) by simp
    from findSeed_result[OF fs]
    have tp: "tryPositions seedMix ts (m_occupied m) buckets seed (buckets ! i) [] = Some positions"
      using i(2) by simp
    have multi: "length (buckets ! i) \<noteq> 1" using False i(2) by simp
    have mem': "\<And>x. x \<in> set (buckets ! i) \<Longrightarrow> fst x < length items" using mem[OF i(1)] by blast
    from multi_step[OF Cons.prems(2) ts i(1) i(4) multi mem' tp]
    have "chdInv seedMix ts buckets items (insert i D)
           ((placeItems items bucket positions m)\<lparr>m_seeds :=
              (m_seeds (placeItems items bucket positions m))[i := seed]\<rparr>)"
      using i(2) by simp
    from Cons.IH[OF rec[unfolded home] this dist rest] un show ?thesis by simp
  qed
qed

subsection \<open>The constructed map\<close>

lemma PerfectHashMap_ctor_stable:
  "PerfectHashMap_ctor hasher seedMix dflt items =
     PerfectHashMap_ctor_ordered sortBySize hasher seedMix dflt items"
  by (simp add: PerfectHashMap_ctor_def PerfectHashMap_ctor_ordered_def)

lemma sortBySize_rearranges:
  "set (sortBySize ibs) = set ibs" "length (sortBySize ibs) = length ibs"
  by (simp_all add: sortBySize_def)

lemma ordered_buckets_props:
  assumes "\<And>ibs. set (order ibs) = set ibs" and "\<And>ibs. length (order ibs) = length ibs"
  shows "set (order (indexedBuckets ts buckets)) = {(i, buckets ! i) | i. i < ts \<and> buckets ! i \<noteq> []}"
    and "distinct (map fst (order (indexedBuckets ts buckets)))"
proof -
  let ?ibs = "indexedBuckets ts buckets"
  show "set (order ?ibs) = {(i, buckets ! i) | i. i < ts \<and> buckets ! i \<noteq> []}"
    unfolding assms(1) by (auto simp: indexedBuckets_def)
  have m: "map fst ?ibs = filter (\<lambda>i. buckets ! i \<noteq> []) [0..<ts]"
    by (simp add: indexedBuckets_def comp_def)
  then have d: "distinct (map fst ?ibs)" by simp
  have "card (set (map fst (order ?ibs))) = card (set (map fst ?ibs))" using assms(1) by simp
  also have "\<dots> = length (map fst ?ibs)" using d by (rule distinct_card)
  also have "\<dots> = length (map fst (order ?ibs))" using assms(2) by simp
  finally show "distinct (map fst (order ?ibs))" by (rule card_distinct)
qed

lemma chdInv_initial:
  "chdInv seedMix ts buckets items {}
     \<lparr>m_itemCount = c, m_table = replicate ts dflt, m_seeds = replicate ts 0,
      m_occupied = replicate ts False\<rparr>"
  by (rule chdInvI) simp_all

lemma ctor_inv:
  fixes hasher :: "'k \<Rightarrow> 'w::len word" and dflt :: "'k \<times> 'v"
    and m :: "('k, 'v, 'w word) PerfectHashMap"
  assumes built: "PerfectHashMap_ctor_ordered order hasher seedMix dflt items = Some (Inr m)"
    and perm: "\<And>ibs. set (order ibs) = set ibs" "\<And>ibs. length (order ibs) = length ibs"
    and ne: "items \<noteq> []"
  shows "\<exists>e. length (m_table m) = 2 ^ e \<and>
           chdInv seedMix (2 ^ e) (fillBuckets hasher (2 ^ e) items) items
             {i. i < 2 ^ e \<and> fillBuckets hasher (2 ^ e) items ! i \<noteq> []} m"
proof -
  obtain a where a: "growPow2 1 (length items) = Some (2 ^ a)" using growPow2_1 by blast
  define ts :: nat where "ts = 2 ^ Suc a"
  define buckets where "buckets = fillBuckets hasher ts items"
  define sorted where "sorted = order (indexedBuckets ts buckets)"
  define m0 :: "('k, 'v, 'w word) PerfectHashMap" where
    "m0 = \<lparr>m_itemCount = length items, m_table = replicate ts dflt, m_seeds = replicate ts 0,
           m_occupied = replicate ts False\<rparr>"
  have ts2: "ts = 2 * 2 ^ a" by (simp add: ts_def)
  from built ne a have run: "processBuckets seedMix ts buckets items sorted m0 = Some m"
    by (auto simp: PerfectHashMap_ctor_ordered_def Let_def ts2 buckets_def sorted_def m0_def
             split: if_splits)
  have tse: "ts = 2 ^ Suc a" by (simp add: ts_def)
  have mem: "fst x < length items \<and> unat (snd x) AND (ts - 1) = i"
    if "i < ts" "x \<in> set (buckets ! i)" for i x
    using that fillBuckets_props(2)[OF tse, of i hasher items] by (auto simp: buckets_def)
  have inv0: "chdInv seedMix ts buckets items {} m0" unfolding m0_def by (rule chdInv_initial)
  note O = ordered_buckets_props[of order, OF perm]
  have dist: "distinct (map fst sorted)" unfolding sorted_def by (rule O(2))
  have ent: "\<forall>ib\<in>set sorted. fst ib < ts \<and> snd ib = buckets ! fst ib \<and> snd ib \<noteq> [] \<and> fst ib \<notin> {}"
    unfolding sorted_def O(1) by auto
  have D: "{} \<union> fst ` set sorted = {i. i < ts \<and> buckets ! i \<noteq> []}"
    unfolding sorted_def O(1) by force
  from processBuckets_inv[OF tse mem run inv0 dist ent]
  have inv: "chdInv seedMix ts buckets items {i. i < ts \<and> buckets ! i \<noteq> []} m"
    unfolding D by simp
  from chdInvD(1)[OF inv] have "length (m_table m) = 2 ^ Suc a" by (simp add: ts_def)
  with inv show ?thesis unfolding buckets_def ts_def by blast
qed

subsection \<open>Lookup in a constructed map\<close>

lemma lookupPosition_eq:
  assumes "length (m_table m) = ts" "length (m_seeds m) = ts" "length (m_occupied m) = ts"
    and "unat (hasher k) AND (ts - 1) < ts"
    and "p = (if sint (m_seeds m ! (unat (hasher k) AND (ts - 1))) < 0
              then nat (- sint (m_seeds m ! (unat (hasher k) AND (ts - 1))) - 1)
              else unat (seedMix (m_seeds m ! (unat (hasher k) AND (ts - 1))) (hasher k) ts))"
    and "p < ts"
  shows "lookupPosition hasher seedMix m k = Inr p"
  using assms by (auto simp: lookupPosition_def Let_def split: if_splits)

lemma lookup_present:
  fixes hasher :: "'k \<Rightarrow> 'w::len word" and m :: "('k, 'v, 'w word) PerfectHashMap"
  assumes inv: "chdInv seedMix ts (fillBuckets hasher ts items) items
                  {i. i < ts \<and> fillBuckets hasher ts items ! i \<noteq> []} m"
    and ts: "ts = 2 ^ e"
    and contract: "\<And>seed h. unat (seedMix seed h ts) < ts"
    and range: "ts < 2 ^ (LENGTH('w) - 1)"
    and seeds: "\<And>i. i < ts \<Longrightarrow> 2 \<le> length (fillBuckets hasher ts items ! i) \<Longrightarrow> 0 \<le> sint (m_seeds m ! i)"
    and idx: "idx < length items"
  shows "lookupPosition hasher seedMix m (fst (items ! idx)) =
           Inr (slotOf seedMix ts (fillBuckets hasher ts items) (m_seeds m)
                  (unat (hasher (fst (items ! idx))) AND (ts - 1)) (hasher (fst (items ! idx))))"
    and "m_occupied m ! slotOf seedMix ts (fillBuckets hasher ts items) (m_seeds m)
                  (unat (hasher (fst (items ! idx))) AND (ts - 1)) (hasher (fst (items ! idx)))"
    and "m_table m ! slotOf seedMix ts (fillBuckets hasher ts items) (m_seeds m)
                  (unat (hasher (fst (items ! idx))) AND (ts - 1)) (hasher (fst (items ! idx)))
           = items ! idx"
proof -
  define buckets where "buckets = fillBuckets hasher ts items"
  define h where "h = hasher (fst (items ! idx))"
  define i where "i = unat h AND (ts - 1)"
  define p where "p = slotOf seedMix ts buckets (m_seeds m) i h"
  note L = chdInvD(1-3)[OF inv]
  have i: "i < ts" using mask_mod[OF ts, of "unat h"] ts by (simp add: i_def)
  have x: "(idx, h) \<in> set (buckets ! i)"
    using fillBuckets_props(2)[OF ts i, of hasher items] idx by (auto simp: buckets_def h_def i_def)
  then have ne: "buckets ! i \<noteq> []" by auto
  have iD: "i \<in> {i. i < ts \<and> fillBuckets hasher ts items ! i \<noteq> []}"
    using i ne by (simp add: buckets_def)
  from chdInvD(4)[OF inv iD, of "(idx, h)"] x
  have P: "p < ts" "m_occupied m ! p" "m_table m ! p = items ! idx"
    by (simp_all add: buckets_def p_def)
  have pos: "(if sint (m_seeds m ! i) < 0 then nat (- sint (m_seeds m ! i) - 1)
              else unat (seedMix (m_seeds m ! i) h ts)) = p"
  proof (cases "length (buckets ! i) = 1")
    case True
    from chdInvD(5)[OF inv iD] True have s: "m_seeds m ! i = - word_of_nat (i + 1)"
      by (simp add: buckets_def)
    have "i + 1 < 2 ^ (LENGTH('w) - 1)" using i range by simp
    from sint_sentinel[OF this] have "sint (m_seeds m ! i) = - int (i + 1)" using s by simp
    then show ?thesis using True by (simp add: p_def slotOf_def)
  next
    case False
    with ne have "2 \<le> length (buckets ! i)" by (cases "buckets ! i") (auto simp: Suc_le_eq)
    from seeds[OF i] this have "0 \<le> sint (m_seeds m ! i)" by (simp add: buckets_def)
    moreover have "unat (seedMix (m_seeds m ! i) h ts) AND (ts - 1) = unat (seedMix (m_seeds m ! i) h ts)"
      using mask_mod[OF ts, of "unat (seedMix (m_seeds m ! i) h ts)"] contract by simp
    ultimately show ?thesis using False by (simp add: p_def slotOf_def)
  qed
  have "lookupPosition hasher seedMix m (fst (items ! idx)) = Inr p"
    using i pos[unfolded i_def h_def]
    by (intro lookupPosition_eq[OF L _ _ P(1)]) (auto simp: i_def h_def split: if_splits)
  then show "lookupPosition hasher seedMix m (fst (items ! idx)) =
           Inr (slotOf seedMix ts (fillBuckets hasher ts items) (m_seeds m)
                  (unat (hasher (fst (items ! idx))) AND (ts - 1)) (hasher (fst (items ! idx))))"
    by (simp add: p_def buckets_def i_def h_def)
  show "m_occupied m ! slotOf seedMix ts (fillBuckets hasher ts items) (m_seeds m)
                  (unat (hasher (fst (items ! idx))) AND (ts - 1)) (hasher (fst (items ! idx)))"
    using P(2) by (simp add: p_def buckets_def i_def h_def)
  show "m_table m ! slotOf seedMix ts (fillBuckets hasher ts items) (m_seeds m)
                  (unat (hasher (fst (items ! idx))) AND (ts - 1)) (hasher (fst (items ! idx)))
           = items ! idx"
    using P(3) by (simp add: p_def buckets_def i_def h_def)
qed

lemma lookup_in_range:
  fixes hasher :: "'k \<Rightarrow> 'w::len word" and m :: "('k, 'v, 'w word) PerfectHashMap"
  assumes inv: "chdInv seedMix ts (fillBuckets hasher ts items) items
                  {i. i < ts \<and> fillBuckets hasher ts items ! i \<noteq> []} m"
    and ts: "ts = 2 ^ e"
    and contract: "\<And>seed h. unat (seedMix seed h ts) < ts"
    and range: "ts < 2 ^ (LENGTH('w) - 1)"
    and seeds: "\<And>i. i < ts \<Longrightarrow> 2 \<le> length (fillBuckets hasher ts items ! i) \<Longrightarrow> 0 \<le> sint (m_seeds m ! i)"
  shows "\<exists>p<ts. lookupPosition hasher seedMix m k = Inr p"
proof -
  define buckets where "buckets = fillBuckets hasher ts items"
  define h where "h = hasher k"
  define i where "i = unat h AND (ts - 1)"
  note L = chdInvD(1-3)[OF inv]
  have i: "i < ts" using mask_mod[OF ts, of "unat h"] ts by (simp add: i_def)
  define p where "p = (if sint (m_seeds m ! i) < 0 then nat (- sint (m_seeds m ! i) - 1)
              else unat (seedMix (m_seeds m ! i) h ts))"
  have "p < ts"
  proof (cases "sint (m_seeds m ! i) < 0")
    case False
    then show ?thesis using contract by (simp add: p_def)
  next
    case True
    have one: "length (buckets ! i) = 1"
    proof (rule ccontr)
      assume n1: "length (buckets ! i) \<noteq> 1"
      show False
      proof (cases "buckets ! i = []")
        case True
        then have "i \<notin> {i. i < ts \<and> fillBuckets hasher ts items ! i \<noteq> []}"
          by (simp add: buckets_def)
        from chdInvD(8)[OF inv i this] \<open>sint (m_seeds m ! i) < 0\<close> show False by simp
      next
        case False
        with n1 have "2 \<le> length (buckets ! i)" by (cases "buckets ! i") (auto simp: Suc_le_eq)
        from seeds[OF i] this \<open>sint (m_seeds m ! i) < 0\<close> show False by (simp add: buckets_def)
      qed
    qed
    then have iD: "i \<in> {i. i < ts \<and> fillBuckets hasher ts items ! i \<noteq> []}"
      using i by (auto simp: buckets_def)
    from chdInvD(5)[OF inv iD] one have s: "m_seeds m ! i = - word_of_nat (i + 1)"
      by (simp add: buckets_def)
    have "i + 1 < 2 ^ (LENGTH('w) - 1)" using i range by simp
    from sint_sentinel[OF this] have "sint (m_seeds m ! i) = - int (i + 1)" using s by simp
    then show ?thesis using i by (simp add: p_def)
  qed
  moreover from this have "lookupPosition hasher seedMix m k = Inr p"
    using i by (intro lookupPosition_eq[OF L]) (auto simp: i_def h_def p_def split: if_splits)
  ultimately show ?thesis by blast
qed

text \<open>
  Lookup after a construction in which every multi-item bucket got its seed early. When the
  construction of a batch completes with the map \<open>m\<close>, in whatever order the sort left the
  buckets of equal size, every key of the batch is found with the value it was given and
  no key outside the batch is contained, provided that
  \<^item> \<open>seedMix\<close> returns a value below the table size it is given (\<open>find\<close> indexes the table
    with it unmasked),
  \<^item> the table size fits the positive range of the signed \<open>seed_type\<close>, and
  \<^item> the seed stored for a bucket of two or more items is non-negative when read as a
    \<open>seed_type\<close>, that is, it was adopted within the first \<open>2^(w-1) - 1\<close> attempts.
  The construction itself does not establish the last condition.
\<close>

lemma lookup_with_early_seeds:
  fixes hasher :: "'k \<Rightarrow> 'w::len word" and m :: "('k, 'v, 'w word) PerfectHashMap"
  assumes built: "PerfectHashMap_ctor_ordered order hasher seedMix dflt items = Some (Inr m)"
    and perm: "\<And>ibs. set (order ibs) = set ibs" "\<And>ibs. length (order ibs) = length ibs"
    and contract: "\<And>seed h. items \<noteq> [] \<Longrightarrow>
                     unat (seedMix seed h (PerfectHashMap_size m)) < PerfectHashMap_size m"
    and range: "PerfectHashMap_size m < 2 ^ (LENGTH('w) - 1)"
    and seeds: "\<And>i. i < PerfectHashMap_size m \<Longrightarrow>
                  2 \<le> length (fillBuckets hasher (PerfectHashMap_size m) items ! i) \<Longrightarrow>
                  0 \<le> sint (m_seeds m ! i)"
  shows "(\<forall>kv\<in>set items. PerfectHashMap_find hasher seedMix m (fst kv) = Inr (Some (snd kv))) \<and>
         (\<forall>k. k \<notin> fst ` set items \<longrightarrow> PerfectHashMap_contains hasher seedMix m k = Inr False)"
proof (cases "items = []")
  case True
  with built have "m_table m = []" by (auto simp: PerfectHashMap_ctor_ordered_def)
  then show ?thesis using True by (simp add: PerfectHashMap_contains_def)
next
  case False
  from ctor_inv[OF built perm False] obtain e where e: "length (m_table m) = 2 ^ e"
    and inv0: "chdInv seedMix (2 ^ e) (fillBuckets hasher (2 ^ e) items) items
             {i. i < 2 ^ e \<and> fillBuckets hasher (2 ^ e) items ! i \<noteq> []} m" by blast
  define ts :: nat where "ts = 2 ^ e"
  have sz: "PerfectHashMap_size m = ts" using e by (simp add: PerfectHashMap_size_def ts_def)
  have inv: "chdInv seedMix ts (fillBuckets hasher ts items) items
                  {i. i < ts \<and> fillBuckets hasher ts items ! i \<noteq> []} m"
    using inv0 by (simp add: ts_def)
  have tse: "ts = 2 ^ e" by (simp add: ts_def)
  have c: "\<And>seed h. unat (seedMix seed h ts) < ts" using contract[OF False] sz by simp
  have r: "ts < 2 ^ (LENGTH('w) - 1)" using range sz by simp
  have s: "\<And>i. i < ts \<Longrightarrow> 2 \<le> length (fillBuckets hasher ts items ! i) \<Longrightarrow> 0 \<le> sint (m_seeds m ! i)"
    using seeds sz by simp
  have tab: "m_table m \<noteq> []" using e by auto
  have found: "PerfectHashMap_find hasher seedMix m (fst kv) = Inr (Some (snd kv))"
    if "kv \<in> set items" for kv
  proof -
    from that obtain idx where idx: "idx < length items" "items ! idx = kv"
      by (auto simp: in_set_conv_nth)
    from lookup_present[OF inv tse c r s idx(1)] idx(2) tab show ?thesis
      by (simp add: PerfectHashMap_find_def)
  qed
  have absent: "PerfectHashMap_contains hasher seedMix m k = Inr False"
    if k: "k \<notin> fst ` set items" for k
  proof -
    from lookup_in_range[OF inv tse c r s, of k] obtain p where
      p: "p < ts" "lookupPosition hasher seedMix m k = Inr p" by blast
    have "\<not> (m_occupied m ! p \<and> fst (m_table m ! p) = k)"
    proof
      assume o: "m_occupied m ! p \<and> fst (m_table m ! p) = k"
      with chdInvD(6)[OF inv p(1)] obtain idx where "idx < length items" "m_table m ! p = items ! idx"
        by blast
      then have "k \<in> fst ` set items" using o by (metis image_eqI nth_mem)
      with k show False by simp
    qed
    then show ?thesis using p(2) tab by (simp add: PerfectHashMap_contains_def)
  qed
  from found absent show ?thesis by blast
qed

lemma ctor_shared_bucket:
  "PerfectHashMap_ctor (\<lambda>k. of_nat k :: 32 word)
     (\<lambda>seed h n. of_nat ((unat seed * 7 + unat h div 8) mod n)) (0, 0)
     [(0::nat, 10::nat), (8, 11), (2, 12)]
   = Some (Inr \<lparr>m_itemCount = 3,
                m_table = [(8, 11), (0, 0), (2, 12), (0, 0), (0, 0), (0, 0), (0, 0), (0, 10)],
                m_seeds = [1, 0, - 3, 0, 0, 0, 0, 0],
                m_occupied = [True, False, True, False, False, False, False, True]\<rparr>)"
  by code_simp

lemma fillBuckets_shared_bucket:
  "fillBuckets (\<lambda>k. of_nat k :: 32 word) 8 [(0::nat, 10::nat), (8, 11), (2, 12)]
     = [[(0, 0), (1, 8)], [], [(2, 2)], [], [], [], [], []]"
  by code_simp

text \<open>An instance with the stable order: keys 0 and 8 share home bucket 0 and get seed 1,
  key 2 is alone in its bucket; 16 is not in the batch.\<close>

lemma lookup_with_early_seeds_example:
  "PerfectHashMap_ctor (\<lambda>k. of_nat k :: 32 word)
     (\<lambda>seed h n. of_nat ((unat seed * 7 + unat h div 8) mod n)) (0, 0)
     [(0::nat, 10::nat), (8, 11), (2, 12)]
   = Some (Inr \<lparr>m_itemCount = 3,
                m_table = [(8, 11), (0, 0), (2, 12), (0, 0), (0, 0), (0, 0), (0, 0), (0, 10)],
                m_seeds = [1, 0, - 3, 0, 0, 0, 0, 0],
                m_occupied = [True, False, True, False, False, False, False, True]\<rparr>)
   \<and> PerfectHashMap_find (\<lambda>k. of_nat k :: 32 word)
        (\<lambda>seed h n. of_nat ((unat seed * 7 + unat h div 8) mod n))
        \<lparr>m_itemCount = 3,
         m_table = [(8::nat, 11::nat), (0, 0), (2, 12), (0, 0), (0, 0), (0, 0), (0, 0), (0, 10)],
         m_seeds = [1, 0, - 3, 0, 0, 0, 0, 0],
         m_occupied = [True, False, True, False, False, False, False, True]\<rparr> 8 = Inr (Some 11)
   \<and> PerfectHashMap_contains (\<lambda>k. of_nat k :: 32 word)
        (\<lambda>seed h n. of_nat ((unat seed * 7 + unat h div 8) mod n))
        \<lparr>m_itemCount = 3,
         m_table = [(8::nat, 11::nat), (0, 0), (2, 12), (0, 0), (0, 0), (0, 0), (0, 0), (0, 10)],
         m_seeds = [1, 0, - 3, 0, 0, 0, 0, 0],
         m_occupied = [True, False, True, False, False, False, False, True]\<rparr> 16 = Inr False"
proof -
  let ?H = "\<lambda>k. of_nat k :: 32 word"
  let ?S = "\<lambda>(seed :: 32 word) (h :: 32 word) n. of_nat ((unat seed * 7 + unat h div 8) mod n) :: 32 word"
  let ?items = "[(0::nat, 10::nat), (8, 11), (2, 12)]"
  let ?m = "\<lparr>m_itemCount = 3,
         m_table = [(8::nat, 11::nat), (0, 0), (2, 12), (0, 0), (0, 0), (0, 0), (0, 0), (0, 10)],
         m_seeds = [1, 0, - 3, 0, 0, 0, 0, 0 :: 32 word],
         m_occupied = [True, False, True, False, False, False, False, True]\<rparr>"
  have sz: "PerfectHashMap_size ?m = 8" by (simp add: PerfectHashMap_size_def)
  have contract: "unat (?S seed h (PerfectHashMap_size ?m)) < PerfectHashMap_size ?m" for seed h
  proof -
    have "(unat seed * 7 + unat h div 8) mod 8 < 8" by simp
    moreover have "unat (of_nat ((unat seed * 7 + unat h div 8) mod 8) :: 32 word)
                     \<le> (unat seed * 7 + unat h div 8) mod 8"
      unfolding unat_of_nat by (rule mod_less_eq_dividend)
    ultimately show ?thesis unfolding sz by simp
  qed
  have range: "PerfectHashMap_size ?m < 2 ^ (LENGTH(32) - 1)" unfolding sz by simp
  have seeds: "0 \<le> sint (m_seeds ?m ! i)"
    if "i < PerfectHashMap_size ?m" "2 \<le> length (fillBuckets ?H (PerfectHashMap_size ?m) ?items ! i)" for i
  proof -
    have "i = 0" using that unfolding sz fillBuckets_shared_bucket
      by (auto simp: nth_Cons' split: if_splits)
    then show ?thesis by simp
  qed
  from lookup_with_early_seeds[OF ctor_shared_bucket[unfolded PerfectHashMap_ctor_stable]
      sortBySize_rearranges contract range seeds]
  show ?thesis using ctor_shared_bucket by simp
qed

subsection \<open>A seed adopted late is read as the single-item marker\<close>


lemma lateSeedMix_in_range: "0 < n \<Longrightarrow> unat (lateSeedMix seed h n) < n"
proof -
  assume n: "0 < n"
  let ?x = "(if seed = - 1 then unat h div 4 + 1 else 1) mod n"
  have "unat (of_nat ?x :: 32 word) \<le> ?x" unfolding unat_of_nat by (rule mod_less_eq_dividend)
  moreover have "?x < n" using n by simp
  ultimately show ?thesis by simp
qed





end
